theory Spec2Isabelle
  imports Complex_Main "HOL-Library.Word" "HOL-Library.Char_ord" "HOL-Library.List_Lexorder"
    "HOL-Library.Sublist"
begin

section \<open>The CON value tree\<close>

text \<open>
  \<^verbatim>\<open>confile.h\<close> keeps a value as a type tag (\<^verbatim>\<open>enum class ConType : uint8_t\<close>) and an
  untyped pointer to the payload. The model is the tagged union the code maintains by
  hand. A \<^verbatim>\<open>std::string\<close> is a \<^typ>\<open>string\<close> (a list of 8-bit characters), a
  \<^verbatim>\<open>std::vector<ConValue>\<close> a list, and a \<^verbatim>\<open>std::map<std::string, ConValue>\<close> the list
  of its entries in iteration order, that is by ascending key (the order of
  \<^verbatim>\<open>std::string::operator<\<close>: lexicographic on unsigned characters, which is the order
  of \<^typ>\<open>string\<close> here). \<^verbatim>\<open>int64_t\<close> is a 64-bit word, and a \<^verbatim>\<open>double\<close> is kept as its
  64-bit IEEE-754 pattern.

  \<^verbatim>\<open>ConValue::read\<close> stores whatever tag byte it finds, so a value can carry a tag outside
  the seven enumerators with a null payload: that is \<open>Invalid\<close>.
\<close>

datatype ConValue =
    Null
  | Boolean bool
  | Integer "64 word"
  | Float "64 word"
  | String string
  | Array "ConValue list"
  | Object "(string \<times> ConValue) list"
  | Invalid char

text \<open>The numeric value of each \<^verbatim>\<open>ConType\<close> enumerator, as the byte written to a stream.\<close>

definition tag_Null :: char where "tag_Null = CHR 0x00"
definition tag_Boolean :: char where "tag_Boolean = CHR 0x01"
definition tag_Integer :: char where "tag_Integer = CHR 0x02"
definition tag_Float :: char where "tag_Float = CHR 0x03"
definition tag_String :: char where "tag_String = CHR 0x04"
definition tag_Array :: char where "tag_Array = CHR 0x05"
definition tag_Object :: char where "tag_Object = CHR 0x06"



text \<open>
  \<^verbatim>\<open>values[key] = value\<close> on the \<^verbatim>\<open>std::map\<close>: the entry of an existing key is
  overwritten, a new key is inserted at its place in the key order.
\<close>

fun map_assign :: "string \<Rightarrow> 'v \<Rightarrow> (string \<times> 'v) list \<Rightarrow> (string \<times> 'v) list" where
  "map_assign k v [] = [(k, v)]"
| "map_assign k v ((k', v') # m) =
     (if k < k' then (k, v) # (k', v') # m
      else if k = k' then (k, v) # m
      else (k', v') # map_assign k v m)"

section \<open>Fixed-width fields\<close>

text \<open>
  \<^verbatim>\<open>stream.write((char*)&size, sizeof(uint64_t))\<close> copies the eight bytes of the object
  representation. The model fixes the byte order of the usual hosts (x86-64, AArch64):
  least significant byte first.
\<close>

fun le_bytes :: "nat \<Rightarrow> nat \<Rightarrow> string" where
  "le_bytes 0 x = []"
| "le_bytes (Suc n) x = char_of (x mod 256) # le_bytes n (x div 256)"

fun le_val :: "string \<Rightarrow> nat" where
  "le_val [] = 0"
| "le_val (c # cs) = of_char c + 256 * le_val cs"

definition write_u64 :: "64 word \<Rightarrow> string" where
  "write_u64 w = le_bytes 8 (unat w)"

definition read_u64 :: "string \<Rightarrow> 64 word" where
  "read_u64 cs = word_of_nat (le_val cs)"

definition write_bool :: "bool \<Rightarrow> string" where
  "write_bool b = [if b then CHR 0x01 else CHR 0x00]"

section \<open>Binary encoder\<close>

definition COMPRESSION_THRESHOLD :: nat where "COMPRESSION_THRESHOLD = 256"
definition COMPRESSION_LEVEL_MIN :: "64 word" where "COMPRESSION_LEVEL_MIN = 0"
definition COMPRESSION_LEVEL_MAX :: "64 word" where "COMPRESSION_LEVEL_MAX = 0"

definition COMPRESS_COMPARE :: "nat \<Rightarrow> 64 word \<Rightarrow> bool" where
  "COMPRESS_COMPARE sz level \<longleftrightarrow>
     sz > COMPRESSION_THRESHOLD \<and> level \<ge> COMPRESSION_LEVEL_MIN \<and> level \<le> COMPRESSION_LEVEL_MAX"

text \<open>
  The framing shared by the three branches of \<^verbatim>\<open>ConValue::write\<close> that can compress.
  \<open>zcompress\<close> is zlib's deflate, a parameter of the model. The compressed branch writes
  flag 1, the compressed size and the compressed bytes; the other branch writes flag 0
  and the bytes, preceded by their size for a String only.
\<close>

definition frame_String :: "(string \<Rightarrow> string) \<Rightarrow> 64 word \<Rightarrow> string \<Rightarrow> string" where
  "frame_String zcompress level str =
     (if COMPRESS_COMPARE (length str) level
      then (let compressed = zcompress str
            in CHR 0x01 # write_u64 (word_of_nat (length compressed)) @ compressed)
      else CHR 0x00 # write_u64 (word_of_nat (length str)) @ str)"

definition frame_container :: "(string \<Rightarrow> string) \<Rightarrow> 64 word \<Rightarrow> string \<Rightarrow> string" where
  "frame_container zcompress level str =
     (if COMPRESS_COMPARE (length str) level
      then (let compressed = zcompress str
            in CHR 0x01 # write_u64 (word_of_nat (length compressed)) @ compressed)
      else CHR 0x00 # str)"

text \<open>
  \<^verbatim>\<open>ConValue::write\<close>, \<^verbatim>\<open>ConArray::write\<close> and \<^verbatim>\<open>ConObject::write\<close>; the two \<open>_loop\<close>
  functions are the range-for loops of the latter two. Each returns the bytes it appends
  to the stream. Null and a foreign tag reach the \<^verbatim>\<open>default\<close> branch, which writes
  nothing after the tag (it logs to \<^verbatim>\<open>std::cerr\<close>).
\<close>

function (sequential) ConValue_write :: "(string \<Rightarrow> string) \<Rightarrow> 64 word \<Rightarrow> ConValue \<Rightarrow> string"
  and ConArray_write :: "(string \<Rightarrow> string) \<Rightarrow> 64 word \<Rightarrow> ConValue list \<Rightarrow> string"
  and ConArray_write_loop :: "(string \<Rightarrow> string) \<Rightarrow> 64 word \<Rightarrow> ConValue list \<Rightarrow> string"
  and ConObject_write :: "(string \<Rightarrow> string) \<Rightarrow> 64 word \<Rightarrow> (string \<times> ConValue) list \<Rightarrow> string"
  and ConObject_write_loop :: "(string \<Rightarrow> string) \<Rightarrow> 64 word \<Rightarrow> (string \<times> ConValue) list \<Rightarrow> string"
where
  "ConValue_write zc level Null = [tag_Null]"
| "ConValue_write zc level (Invalid t) = [t]"
| "ConValue_write zc level (Boolean b) = tag_Boolean # write_bool b"
| "ConValue_write zc level (Integer i) = tag_Integer # write_u64 i"
| "ConValue_write zc level (Float d) = tag_Float # write_u64 d"
| "ConValue_write zc level (String str) = tag_String # frame_String zc level str"
| "ConValue_write zc level (Array vs) = tag_Array # frame_container zc level (ConArray_write zc level vs)"
| "ConValue_write zc level (Object kvs) = tag_Object # frame_container zc level (ConObject_write zc level kvs)"
| "ConArray_write zc level vs =
     write_u64 (word_of_nat (length vs)) @ ConArray_write_loop zc level vs"
| "ConArray_write_loop zc level [] = []"
| "ConArray_write_loop zc level (v # vs) =
     ConValue_write zc (level + 1) v @ ConArray_write_loop zc level vs"
| "ConObject_write zc level kvs =
     write_u64 (word_of_nat (length kvs)) @ ConObject_write_loop zc level kvs"
| "ConObject_write_loop zc level [] = []"
| "ConObject_write_loop zc level ((key, v) # kvs) =
     write_u64 (word_of_nat (length key)) @ key @ ConValue_write zc (level + 1) v
       @ ConObject_write_loop zc level kvs"

  by pat_completeness auto
termination
  by (relation "measure (\<lambda>x. case x of
      Inl (Inl (zc, l, v)) \<Rightarrow> 2 * size v
    | Inl (Inr (zc, l, vs)) \<Rightarrow> 2 * size_list size vs + 1
    | Inr (Inl (zc, l, vs)) \<Rightarrow> 2 * size_list size vs
    | Inr (Inr (Inl (zc, l, kvs))) \<Rightarrow> 2 * size_list (size_prod (\<lambda>x. 0) size) kvs + 1
    | Inr (Inr (Inr (zc, l, kvs))) \<Rightarrow> 2 * size_list (size_prod (\<lambda>x. 0) size) kvs)") auto

section \<open>Input streams\<close>

text \<open>
  A \<^verbatim>\<open>std::istream\<close> over a file or a string: the characters not yet extracted and the
  two state bits the code can set. \<^verbatim>\<open>badbit\<close> is never raised on these streams by the
  calls the code makes.
\<close>

record istream =
  buf :: string
  eofbit :: bool
  failbit :: bool

definition istream_of :: "string \<Rightarrow> istream" where
  "istream_of str = \<lparr>buf = str, eofbit = False, failbit = False\<rparr>"

definition good :: "istream \<Rightarrow> bool" where
  "good s \<longleftrightarrow> \<not> eofbit s \<and> \<not> failbit s"

text \<open>
  \<^verbatim>\<open>stream.read(p, n)\<close>: unformatted input. On a stream that is not good it sets
  \<^verbatim>\<open>failbit\<close> and extracts nothing; otherwise it extracts \<open>n\<close> characters, or all that
  are left and sets \<^verbatim>\<open>eofbit | failbit\<close>. The result is the characters extracted: when
  there are fewer than \<open>n\<close>, the rest of the destination keeps its old content.
\<close>

definition istream_read :: "nat \<Rightarrow> istream \<Rightarrow> string \<times> istream" where
  "istream_read n s =
     (if \<not> good s then ([], s\<lparr>failbit := True\<rparr>)
      else if n \<le> length (buf s) then (take n (buf s), s\<lparr>buf := drop n (buf s)\<rparr>)
      else (buf s, s\<lparr>buf := [], eofbit := True, failbit := True\<rparr>))"

section \<open>Binary decoder\<close>

text \<open>
  The decoder checks no stream state. Where a short read leaves a variable or a buffer
  (partly) uninitialised and the code goes on to use it, what happens is not determined
  by the program: the model stops with \<open>Indeterminate\<close>. Memory allocation is taken to
  succeed.

  Nothing bounds the recursion of the decoder through decompressed buffers, so the model
  carries fuel, one unit per nested \<^verbatim>\<open>ConValue::read\<close>; \<open>None\<close> is fuel exhausted.
\<close>

datatype 'a outcome = Returns 'a | Indeterminate

definition bind_read :: "'a outcome \<Rightarrow> ('a \<Rightarrow> 'b outcome option) \<Rightarrow> 'b outcome option" where
  "bind_read m f = (case m of Indeterminate \<Rightarrow> Some Indeterminate | Returns x \<Rightarrow> f x)"

definition bind_rec :: "'a outcome option \<Rightarrow> ('a \<Rightarrow> 'b outcome option) \<Rightarrow> 'b outcome option" where
  "bind_rec m f = (case m of None \<Rightarrow> None | Some r \<Rightarrow> bind_read r f)"

text \<open>A \<^verbatim>\<open>stream.read\<close> into a fresh variable or \<^verbatim>\<open>new char[n]\<close> buffer that is used whole.\<close>

definition read_field :: "nat \<Rightarrow> istream \<Rightarrow> (string \<times> istream) outcome" where
  "read_field n s =
     (case istream_read n s of (bytes, s') \<Rightarrow>
        if length bytes < n then Indeterminate else Returns (bytes, s'))"

text \<open>
  A byte read into a \<^verbatim>\<open>bool\<close>: 0 and 1 are its two values, any other byte is not a value
  of the type.
\<close>

definition read_bool :: "char \<Rightarrow> bool outcome" where
  "read_bool c = (if c = CHR 0x00 then Returns False else if c = CHR 0x01 then Returns True else Indeterminate)"

definition read_Boolean :: "istream \<Rightarrow> (ConValue \<times> istream) outcome option" where
  "read_Boolean s =
     bind_read (read_field 1 s) (\<lambda>(bytes, s1).
     bind_read (read_bool (hd bytes)) (\<lambda>b. Some (Returns (Boolean b, s1))))"

definition read_Integer :: "istream \<Rightarrow> (ConValue \<times> istream) outcome option" where
  "read_Integer s =
     bind_read (read_field 8 s) (\<lambda>(bytes, s1). Some (Returns (Integer (read_u64 bytes), s1)))"

definition read_Float :: "istream \<Rightarrow> (ConValue \<times> istream) outcome option" where
  "read_Float s =
     bind_read (read_field 8 s) (\<lambda>(bytes, s1). Some (Returns (Float (read_u64 bytes), s1)))"

text \<open>The size field and the \<^verbatim>\<open>new char[size]\<close> buffer of a String or a compressed Array.\<close>

definition read_sized :: "istream \<Rightarrow> (string \<times> istream) outcome" where
  "read_sized s =
     (case read_field 8 s of
        Indeterminate \<Rightarrow> Indeterminate
      | Returns (size_bytes, s1) \<Rightarrow> read_field (unat (read_u64 size_bytes)) s1)"

text \<open>
  The same for a compressed Object, whose buffer is a \<^verbatim>\<open>std::vector<uint8_t>(size)\<close>:
  zero-filled, so that a short read leaves zeros behind the bytes extracted.
\<close>

definition read_sized_zeroed :: "istream \<Rightarrow> (string \<times> istream) outcome" where
  "read_sized_zeroed s =
     (case read_field 8 s of
        Indeterminate \<Rightarrow> Indeterminate
      | Returns (size_bytes, s1) \<Rightarrow>
          (case istream_read (unat (read_u64 size_bytes)) s1 of (got, s2) \<Rightarrow>
             Returns (got @ replicate (unat (read_u64 size_bytes) - length got) (CHR 0x00), s2)))"

definition read_String :: "(string \<Rightarrow> string) \<Rightarrow> istream \<Rightarrow> (ConValue \<times> istream) outcome option" where
  "read_String zdecompress s =
     bind_read (read_field 1 s) (\<lambda>(compressed, s1).
     bind_read (read_sized s1) (\<lambda>(buffer, s2).
       if hd compressed \<noteq> CHR 0x00 then Some (Returns (String (zdecompress buffer), s2))
       else Some (Returns (String buffer, s2))))"

text \<open>
  \<^verbatim>\<open>ConValue::read\<close>, \<^verbatim>\<open>ConArray::read\<close> and \<^verbatim>\<open>ConObject::read\<close> with their loops, which
  count down the number of entries left and carry the container built so far.
  \<open>zdecompress\<close> is zlib's inflate, a parameter of the model. A compressed container is
  decoded from a stream over the decompressed buffer, and the live stream goes on behind
  the compressed bytes. Null has no \<^verbatim>\<open>case\<close> in the \<^verbatim>\<open>switch\<close> and there is no
  \<^verbatim>\<open>default\<close>: every tag other than the six handled ones reads nothing more.
\<close>

function (sequential) ConValue_read :: "(string \<Rightarrow> string) \<Rightarrow> nat \<Rightarrow> istream \<Rightarrow> (ConValue \<times> istream) outcome option"
  and ConArray_read :: "(string \<Rightarrow> string) \<Rightarrow> nat \<Rightarrow> istream \<Rightarrow> (ConValue list \<times> istream) outcome option"
  and ConArray_read_loop :: "(string \<Rightarrow> string) \<Rightarrow> nat \<Rightarrow> nat \<Rightarrow> ConValue list \<Rightarrow> istream \<Rightarrow> (ConValue list \<times> istream) outcome option"
  and ConObject_read :: "(string \<Rightarrow> string) \<Rightarrow> nat \<Rightarrow> istream \<Rightarrow> ((string \<times> ConValue) list \<times> istream) outcome option"
  and ConObject_read_loop :: "(string \<Rightarrow> string) \<Rightarrow> nat \<Rightarrow> nat \<Rightarrow> (string \<times> ConValue) list \<Rightarrow> istream \<Rightarrow> ((string \<times> ConValue) list \<times> istream) outcome option"
where
  "ConValue_read zd 0 s = None"
| "ConValue_read zd (Suc fuel) s =
     bind_read (read_field 1 s) (\<lambda>(type, s1).
       if hd type = tag_Boolean then read_Boolean s1
       else if hd type = tag_Integer then read_Integer s1
       else if hd type = tag_Float then read_Float s1
       else if hd type = tag_String then read_String zd s1
       else if hd type = tag_Array then
         bind_read (read_field 1 s1) (\<lambda>(compressed, s2).
           if hd compressed \<noteq> CHR 0x00 then
             bind_read (read_sized s2) (\<lambda>(buffer, s3).
             bind_rec (ConArray_read zd fuel (istream_of (zd buffer))) (\<lambda>(arr, bufferStream).
               Some (Returns (Array arr, s3))))
           else
             bind_rec (ConArray_read zd fuel s2) (\<lambda>(arr, s3). Some (Returns (Array arr, s3))))
       else if hd type = tag_Object then
         bind_read (read_field 1 s1) (\<lambda>(compressed, s2).
           if hd compressed \<noteq> CHR 0x00 then
             bind_read (read_sized_zeroed s2) (\<lambda>(buffer, s3).
             bind_rec (ConObject_read zd fuel (istream_of (zd buffer))) (\<lambda>(obj, bufferStream).
               Some (Returns (Object obj, s3))))
           else
             bind_rec (ConObject_read zd fuel s2) (\<lambda>(obj, s3). Some (Returns (Object obj, s3))))
       else if hd type = tag_Null then Some (Returns (Null, s1))
       else Some (Returns (Invalid (hd type), s1)))"
| "ConArray_read zd fuel s =
     bind_read (read_field 8 s) (\<lambda>(size_bytes, s1).
       ConArray_read_loop zd fuel (unat (read_u64 size_bytes)) [] s1)"
| "ConArray_read_loop zd fuel 0 values s = Some (Returns (values, s))"
| "ConArray_read_loop zd fuel (Suc n) values s =
     bind_rec (ConValue_read zd fuel s) (\<lambda>(v, s1).
       ConArray_read_loop zd fuel n (values @ [v]) s1)"
| "ConObject_read zd fuel s =
     bind_read (read_field 8 s) (\<lambda>(size_bytes, s1).
       ConObject_read_loop zd fuel (unat (read_u64 size_bytes)) [] s1)"
| "ConObject_read_loop zd fuel 0 values s = Some (Returns (values, s))"
| "ConObject_read_loop zd fuel (Suc n) values s =
     bind_read (read_field 8 s) (\<lambda>(keySize_bytes, s1).
     bind_read (read_field (unat (read_u64 keySize_bytes)) s1) (\<lambda>(key, s2).
     bind_rec (ConValue_read zd fuel s2) (\<lambda>(v, s3).
       ConObject_read_loop zd fuel n (map_assign key v values) s3)))"

  by pat_completeness auto
termination
  by (relation "measures [
      (\<lambda>x. case x of
          Inl (Inl (zd, fuel, s)) \<Rightarrow> fuel
        | Inl (Inr (zd, fuel, s)) \<Rightarrow> fuel
        | Inr (Inl (zd, fuel, n, vs, s)) \<Rightarrow> fuel
        | Inr (Inr (Inl (zd, fuel, s))) \<Rightarrow> fuel
        | Inr (Inr (Inr (zd, fuel, n, kvs, s))) \<Rightarrow> fuel),
      (\<lambda>x. case x of
          Inl (Inl (zd, fuel, s)) \<Rightarrow> 0
        | Inl (Inr (zd, fuel, s)) \<Rightarrow> 2
        | Inr (Inl (zd, fuel, n, vs, s)) \<Rightarrow> 1
        | Inr (Inr (Inl (zd, fuel, s))) \<Rightarrow> 2
        | Inr (Inr (Inr (zd, fuel, n, kvs, s))) \<Rightarrow> 1),
      (\<lambda>x. case x of
          Inl (Inl (zd, fuel, s)) \<Rightarrow> 0
        | Inl (Inr (zd, fuel, s)) \<Rightarrow> 0
        | Inr (Inl (zd, fuel, n, vs, s)) \<Rightarrow> n
        | Inr (Inr (Inl (zd, fuel, s))) \<Rightarrow> 0
        | Inr (Inr (Inr (zd, fuel, n, kvs, s))) \<Rightarrow> n)]") auto


section \<open>Values a program can build\<close>

text \<open>
  What the constructors of \<^verbatim>\<open>ConValue\<close> and the containers give: one of the seven
  variants, every \<^verbatim>\<open>size()\<close> a \<^verbatim>\<open>uint64_t\<close>, and the entries of a \<^verbatim>\<open>std::map\<close> in
  strictly ascending key order (so the keys are unique). A tree in a 64-bit address
  space has fewer than \<open>2 ^ 64\<close> nodes; \<^const>\<open>size\<close> counts them.
\<close>

fun well_formed :: "ConValue \<Rightarrow> bool" where
  "well_formed Null = True"
| "well_formed (Boolean b) = True"
| "well_formed (Integer i) = True"
| "well_formed (Float d) = True"
| "well_formed (String str) = (length str < 2 ^ 64)"
| "well_formed (Array vs) = (length vs < 2 ^ 64 \<and> (\<forall>v \<in> set vs. well_formed v))"
| "well_formed (Object kvs) =
     (length kvs < 2 ^ 64 \<and> sorted_wrt (<) (map fst kvs)
      \<and> (\<forall>(key, v) \<in> set kvs. length key < 2 ^ 64 \<and> well_formed v))"
| "well_formed (Invalid t) = False"

definition constructible :: "ConValue \<Rightarrow> bool" where
  "constructible v \<longleftrightarrow> well_formed v \<and> size v < 2 ^ 64"




section \<open>Doubles\<close>

text \<open>
  The text side reads every number through \<^verbatim>\<open>is >> d\<close> with \<^verbatim>\<open>double d\<close>, tests
  \<^verbatim>\<open>d == (int64_t)d\<close> and prints a Float with \<^verbatim>\<open>os << double\<close>. A double is its IEEE-754
  binary64 pattern: sign bit, 11 exponent bits, 52 fraction bits. \<open>double_value\<close> is the
  rational number a finite pattern stands for.
\<close>

definition double_sign :: "64 word \<Rightarrow> bool" where
  "double_sign d \<longleftrightarrow> bit d 63"

definition double_exponent :: "64 word \<Rightarrow> nat" where
  "double_exponent d = unat d div 2 ^ 52 mod 2048"

definition double_fraction :: "64 word \<Rightarrow> nat" where
  "double_fraction d = unat d mod 2 ^ 52"

definition double_finite :: "64 word \<Rightarrow> bool" where
  "double_finite d \<longleftrightarrow> double_exponent d \<noteq> 2047"

text \<open>A finite double is \<open>\<plusminus> significand * 2 ^ scale\<close>.\<close>

definition double_significand :: "64 word \<Rightarrow> nat" where
  "double_significand d =
     (if double_exponent d = 0 then double_fraction d else 2 ^ 52 + double_fraction d)"

definition double_scale :: "64 word \<Rightarrow> int" where
  "double_scale d = int (if double_exponent d = 0 then 1 else double_exponent d) - 1075"

definition double_value :: "64 word \<Rightarrow> rat" where
  "double_value d =
     (if double_sign d then - 1 else 1) * of_nat (double_significand d)
       * (if double_scale d \<ge> 0 then 2 ^ nat (double_scale d) else 1 / 2 ^ nat (- double_scale d))"

text \<open>
  \<^verbatim>\<open>(int64_t)d\<close> discards the fraction (as an unbounded integer here; the caller checks
  the range), and \<open>double_integral\<close> tells whether there was none.
\<close>

definition double_trunc :: "64 word \<Rightarrow> int" where
  "double_trunc d =
     (if double_sign d then - 1 else 1)
       * (if double_scale d \<ge> 0 then int (double_significand d * 2 ^ nat (double_scale d))
          else int (double_significand d div 2 ^ nat (- double_scale d)))"

definition double_integral :: "64 word \<Rightarrow> bool" where
  "double_integral d \<longleftrightarrow>
     double_scale d \<ge> 0 \<or> double_significand d mod 2 ^ nat (- double_scale d) = 0"

text \<open>
  Rounding the positive rational \<open>p / q\<close> to the nearest double, ties to even, as
  \<^verbatim>\<open>strtod\<close> does in the default rounding mode. The result is the pattern without the
  sign bit; a result of \<open>0x7FF0000000000000\<close> or more is an overflow.
\<close>

fun bit_length :: "nat \<Rightarrow> nat" where
  "bit_length n = (if n = 0 then 0 else Suc (bit_length (n div 2)))"

declare bit_length.simps [simp del]

definition floor_log2 :: "nat \<Rightarrow> nat \<Rightarrow> int" where
  "floor_log2 p q =
     (let e0 = int (bit_length p) - int (bit_length q)
      in if (if e0 \<ge> 0 then 2 ^ nat e0 * q \<le> p else q \<le> p * 2 ^ nat (- e0)) then e0 else e0 - 1)"

definition round_half_even :: "nat \<Rightarrow> nat \<Rightarrow> nat" where
  "round_half_even n d =
     (let k = n div d; r = n mod d
      in if 2 * r < d then k else if 2 * r > d then k + 1 else if even k then k else k + 1)"

definition round_to_double :: "nat \<Rightarrow> nat \<Rightarrow> nat" where
  "round_to_double p q =
     (if p = 0 then 0
      else let E = max (floor_log2 p q) (- 1022);
               m = (if E \<ge> 52 then round_half_even p (q * 2 ^ nat (E - 52))
                    else round_half_even (p * 2 ^ nat (52 - E)) q)
           in nat (E + 1022) * 2 ^ 52 + m)"

definition double_infinity :: nat where "double_infinity = 0x7FF0000000000000"
definition double_max :: nat where "double_max = 0x7FEFFFFFFFFFFFFF"
definition sign_mask :: nat where "sign_mask = 0x8000000000000000"

section \<open>Reading a double from a stream\<close>

definition is_digit :: "char \<Rightarrow> bool" where
  "is_digit c \<longleftrightarrow> CHR ''0'' \<le> c \<and> c \<le> CHR ''9''"

definition digit_val :: "char \<Rightarrow> nat" where
  "digit_val c = of_char c - 48"

fun nat_of_digits :: "nat \<Rightarrow> string \<Rightarrow> nat" where
  "nat_of_digits acc [] = acc"
| "nat_of_digits acc (c # cs) = nat_of_digits (10 * acc + digit_val c) cs"

text \<open>
  \<^verbatim>\<open>is >> d\<close> is the standard library's \<^verbatim>\<open>num_get\<close>. The model follows libstdc++ in the
  "C" locale. \<^verbatim>\<open>_M_extract_float\<close> gathers the characters of the field into \<^verbatim>\<open>xtrc\<close>: a
  sign, the leading zeros as one \<open>0\<close>, then digits, at most one point, and at most one
  \<open>e\<close> (after a digit) with its sign. \<open>extract_float_loop\<close> is its last loop, with the flags
  \<^verbatim>\<open>found_mantissa\<close>, \<^verbatim>\<open>found_dec\<close> and \<^verbatim>\<open>found_sci\<close>; both return \<^verbatim>\<open>xtrc\<close> and the
  characters left.
\<close>

fun extract_float_loop :: "bool \<Rightarrow> bool \<Rightarrow> bool \<Rightarrow> string \<Rightarrow> string \<Rightarrow> string \<times> string" where
  "extract_float_loop found_mantissa found_dec found_sci xtrc [] = (xtrc, [])"
| "extract_float_loop found_mantissa found_dec found_sci xtrc (c # cs) =
     (if is_digit c then extract_float_loop True found_dec found_sci (xtrc @ [c]) cs
      else if c = CHR ''.'' \<and> \<not> found_dec \<and> \<not> found_sci then
        extract_float_loop found_mantissa True found_sci (xtrc @ ''.'') cs
      else if (c = CHR ''e'' \<or> c = CHR ''E'') \<and> \<not> found_sci \<and> found_mantissa then
        (case cs of
           [] \<Rightarrow> (xtrc @ ''e'', [])
         | c' # cs' \<Rightarrow>
             if c' = CHR ''+'' \<or> c' = CHR ''-''
             then extract_float_loop found_mantissa found_dec True (xtrc @ ''e'' @ [c']) cs'
             else extract_float_loop found_mantissa found_dec True (xtrc @ ''e'') cs)
      else (xtrc, c # cs))"

definition extract_float :: "string \<Rightarrow> string \<times> string" where
  "extract_float input =
     (let (sign, after_sign) =
            (case input of
               c # cs \<Rightarrow> if c = CHR ''+'' \<or> c = CHR ''-'' then ([c], cs) else ([], input)
             | [] \<Rightarrow> ([], input));
          zeros = takeWhile (\<lambda>c. c = CHR ''0'') after_sign
      in extract_float_loop (zeros \<noteq> []) False False
           (sign @ (if zeros \<noteq> [] then ''0'' else []))
           (dropWhile (\<lambda>c. c = CHR ''0'') after_sign))"

text \<open>
  \<^verbatim>\<open>__convert_to_v\<close> runs \<^verbatim>\<open>strtod\<close> on \<^verbatim>\<open>xtrc\<close>. When \<^verbatim>\<open>strtod\<close> does not use the whole
  field (no digit in the mantissa, or an \<open>e\<close> without digits) the value is 0 and
  \<^verbatim>\<open>failbit\<close> is raised; an overflow gives the largest double and \<^verbatim>\<open>failbit\<close>. The
  result is the pattern and the \<^verbatim>\<open>failbit\<close>.
\<close>

definition convert_to_v :: "string \<Rightarrow> 64 word \<times> bool" where
  "convert_to_v xtrc =
     (let negative = (xtrc \<noteq> [] \<and> hd xtrc = CHR ''-'');
          r0 = (if xtrc \<noteq> [] \<and> (hd xtrc = CHR ''+'' \<or> hd xtrc = CHR ''-'') then tl xtrc else xtrc);
          int_part = takeWhile is_digit r0;
          r1 = dropWhile is_digit r0;
          has_point = (r1 \<noteq> [] \<and> hd r1 = CHR ''.'');
          frac_part = (if has_point then takeWhile is_digit (tl r1) else []);
          r2 = (if has_point then dropWhile is_digit (tl r1) else r1);
          has_exp = (r2 \<noteq> [] \<and> hd r2 = CHR ''e'');
          r3 = (if has_exp then tl r2 else r2);
          exp_negative = (r3 \<noteq> [] \<and> hd r3 = CHR ''-'');
          r4 = (if has_exp \<and> r3 \<noteq> [] \<and> (hd r3 = CHR ''+'' \<or> hd r3 = CHR ''-'') then tl r3 else r3);
          exp_digits = (if has_exp then takeWhile is_digit r4 else []);
          r5 = (if has_exp then dropWhile is_digit r4 else r4)
      in if int_part @ frac_part = [] \<or> (has_exp \<and> exp_digits = []) \<or> r5 \<noteq> [] then (0, True)
         else
           (let mantissa = nat_of_digits 0 (int_part @ frac_part);
                exponent = (if exp_negative then - int (nat_of_digits 0 exp_digits)
                            else int (nat_of_digits 0 exp_digits)) - int (length frac_part);
                magnitude = (if exponent \<ge> 0 then round_to_double (mantissa * 10 ^ nat exponent) 1
                             else round_to_double mantissa (10 ^ nat (- exponent)));
                sign = (if negative then sign_mask else 0)
            in if magnitude \<ge> double_infinity then (word_of_nat (sign + double_max), True)
               else (word_of_nat (sign + magnitude), False)))"

section \<open>Character input\<close>

text \<open>
  \<^verbatim>\<open>is.get(c)\<close>: on a stream that is not good it sets \<^verbatim>\<open>failbit\<close>; at the end of the
  input it sets \<^verbatim>\<open>eofbit | failbit\<close>; in both cases \<open>c\<close> keeps its content (\<open>None\<close>).
\<close>

definition istream_get :: "istream \<Rightarrow> char option \<times> istream" where
  "istream_get s =
     (if \<not> good s then (None, s\<lparr>failbit := True\<rparr>)
      else case buf s of
             [] \<Rightarrow> (None, s\<lparr>eofbit := True, failbit := True\<rparr>)
           | c # cs \<Rightarrow> (Some c, s\<lparr>buf := cs\<rparr>))"

text \<open>
  \<^verbatim>\<open>is.putback(c)\<close> clears \<^verbatim>\<open>eofbit\<close> and, unless the stream has failed, steps back
  over \<open>c\<close>. The code only ever puts back the character it has just extracted.
\<close>

definition istream_putback :: "char \<Rightarrow> istream \<Rightarrow> istream" where
  "istream_putback c s =
     (if failbit s then s\<lparr>eofbit := False\<rparr> else s\<lparr>buf := c # buf s, eofbit := False\<rparr>)"

text \<open>
  The sentry of a formatted extraction (\<^verbatim>\<open>is >> c\<close>, \<^verbatim>\<open>is >> d\<close>) skips the white space
  of the "C" locale and fails at the end of the input.
\<close>

definition isspace :: "char \<Rightarrow> bool" where
  "isspace c \<longleftrightarrow> c \<in> set [CHR 0x20, CHR 0x09, CHR 0x0A, CHR 0x0B, CHR 0x0C, CHR 0x0D]"

definition sentry_skipws :: "istream \<Rightarrow> bool \<times> istream" where
  "sentry_skipws s =
     (if \<not> good s then (False, s\<lparr>failbit := True\<rparr>)
      else case dropWhile isspace (buf s) of
             [] \<Rightarrow> (False, s\<lparr>buf := [], eofbit := True, failbit := True\<rparr>)
           | c # cs \<Rightarrow> (True, s\<lparr>buf := c # cs\<rparr>))"

definition istream_extract_char :: "istream \<Rightarrow> char option \<times> istream" where
  "istream_extract_char s =
     (case sentry_skipws s of
        (False, s') \<Rightarrow> (None, s')
      | (True, s') \<Rightarrow> (Some (hd (buf s')), s'\<lparr>buf := tl (buf s')\<rparr>))"

definition istream_extract_double :: "istream \<Rightarrow> 64 word option \<times> istream" where
  "istream_extract_double s =
     (case sentry_skipws s of
        (False, s') \<Rightarrow> (None, s')
      | (True, s') \<Rightarrow>
          (case extract_float (buf s') of (xtrc, rest) \<Rightarrow>
           case convert_to_v xtrc of (v, err) \<Rightarrow>
             (Some v, s'\<lparr>buf := rest, eofbit := (rest = []), failbit := err\<rparr>)))"

text \<open>
  \<^verbatim>\<open>std::getline(is, key, delim)\<close> into an empty string: the characters up to the
  delimiter, which is extracted and dropped; at the end of the input \<^verbatim>\<open>eofbit\<close>, and
  \<^verbatim>\<open>failbit\<close> when nothing at all was extracted.
\<close>

definition getline :: "char \<Rightarrow> istream \<Rightarrow> string \<times> istream" where
  "getline delim s =
     (if \<not> good s then ([], s\<lparr>failbit := True\<rparr>)
      else let str = takeWhile (\<lambda>c. c \<noteq> delim) (buf s);
               rest = dropWhile (\<lambda>c. c \<noteq> delim) (buf s)
           in if rest = [] then (str, s\<lparr>buf := [], eofbit := True, failbit := (str = [])\<rparr>)
              else (str, s\<lparr>buf := tl rest\<rparr>))"

section \<open>Text parser\<close>

definition is_blank :: "char \<Rightarrow> bool" where
  "is_blank c \<longleftrightarrow> c = CHR '' '' \<or> c = CHR 0x0A \<or> c = CHR 0x09 \<or> c = CHR 0x0D"

function eliminateWhitespace :: "istream \<Rightarrow> istream" where
  "eliminateWhitespace s =
     (case istream_get s of
        (None, s') \<Rightarrow> s'
      | (Some c, s') \<Rightarrow>
          if \<not> is_blank c then istream_putback c s' else eliminateWhitespace s')"
  by pat_completeness auto
termination
  by (relation "measure (\<lambda>s. length (buf s))")
     (auto simp: istream_get_def split: if_splits list.splits)

declare eliminateWhitespace.simps [simp del]

text \<open>\<open>n\<close> times \<^verbatim>\<open>is.get(c)\<close>, the loop that uses up \<^verbatim>\<open>true\<close> or \<^verbatim>\<open>false\<close>.\<close>

fun get_n :: "nat \<Rightarrow> istream \<Rightarrow> istream" where
  "get_n 0 s = s"
| "get_n (Suc n) s = get_n n (snd (istream_get s))"

text \<open>
  The statement \<^verbatim>\<open>if (d == (int64_t)d) value = ConValue((int64_t)d); else value =
  ConValue(d);\<close>. Converting a double whose integer part is not an \<^verbatim>\<open>int64_t\<close> is
  undefined behaviour.
\<close>

definition number_collapse :: "64 word \<Rightarrow> ConValue outcome" where
  "number_collapse d =
     (if \<not> double_finite d \<or> double_trunc d < - (2 ^ 63) \<or> 2 ^ 63 \<le> double_trunc d then Indeterminate
      else if double_integral d then Returns (Integer (word_of_int (double_trunc d)))
      else Returns (Float d))"

text \<open>
  The loop that collects a string value. \<open>c\<close> is the character variable of
  \<^verbatim>\<open>operator>>\<close>; a failed \<^verbatim>\<open>get\<close> leaves it as it was, so at the end of the input the
  loop goes round for ever unless \<open>c\<close> is the quote. Fuel bounds the iterations.
\<close>

fun string_loop :: "nat \<Rightarrow> char \<Rightarrow> string \<Rightarrow> istream \<Rightarrow> (string \<times> istream) option" where
  "string_loop 0 c str s = None"
| "string_loop (Suc fuel) c str s =
     (case istream_get s of (r, s') \<Rightarrow>
        let c' = (case r of None \<Rightarrow> c | Some x \<Rightarrow> x)
        in if c' = CHR 0x22 then Some (str, s') else string_loop fuel c' (str @ [c']) s')"

definition set_failbit :: "istream \<Rightarrow> istream" where
  "set_failbit s = s\<lparr>failbit := True\<rparr>"

text \<open>
  The three \<^verbatim>\<open>operator>>\<close> for \<^verbatim>\<open>ConValue\<close>, \<^verbatim>\<open>ConArray\<close> and \<^verbatim>\<open>ConObject\<close>, and the
  \<^verbatim>\<open>while (true)\<close> loops of the last two. Each takes fuel (one unit per nested call and
  per iteration; \<open>None\<close> is fuel exhausted) and returns the value built and the stream.
  A failure is the stream's \<^verbatim>\<open>failbit\<close> (and a line on \<^verbatim>\<open>std::cout\<close>, not modelled); the
  value built so far is returned all the same. Where a character variable is compared
  before anything was extracted into it, the outcome is \<open>Indeterminate\<close>. \<open>c\<close> in the
  loops is the character variable of the enclosing operator, which a failed extraction
  leaves unchanged.
\<close>

function (sequential) parse_ConValue :: "nat \<Rightarrow> istream \<Rightarrow> (ConValue \<times> istream) outcome option"
  and parse_ConArray :: "nat \<Rightarrow> ConValue list \<Rightarrow> istream \<Rightarrow> (ConValue list \<times> istream) outcome option"
  and parse_ConArray_loop :: "nat \<Rightarrow> char \<Rightarrow> ConValue list \<Rightarrow> istream \<Rightarrow> (ConValue list \<times> istream) outcome option"
  and parse_ConObject :: "nat \<Rightarrow> (string \<times> ConValue) list \<Rightarrow> istream \<Rightarrow> ((string \<times> ConValue) list \<times> istream) outcome option"
  and parse_ConObject_loop :: "nat \<Rightarrow> char \<Rightarrow> (string \<times> ConValue) list \<Rightarrow> istream \<Rightarrow> ((string \<times> ConValue) list \<times> istream) outcome option"
where
  "parse_ConValue 0 s = None"
| "parse_ConValue (Suc fuel) s =
     (case istream_get (eliminateWhitespace s) of
        (None, s1) \<Rightarrow> Some Indeterminate
      | (Some c, s1) \<Rightarrow>
          (let s2 = istream_putback c s1 in
           if c = CHR ''n'' then Some (Returns (Null, s2))
           else if c = CHR ''t'' \<or> c = CHR ''f'' then
             Some (Returns (Boolean (c = CHR ''t''),
                            get_n (if c = CHR ''t'' then 4 else 5) (eliminateWhitespace s2)))
           else if c = CHR 0x22 then
             (case istream_get (eliminateWhitespace s2) of (r, s3) \<Rightarrow>
                let c' = (case r of None \<Rightarrow> c | Some x \<Rightarrow> x);
                    s4 = (if c' \<noteq> CHR 0x22 then set_failbit s3 else s3)
                in case string_loop fuel c' [] s4 of
                     None \<Rightarrow> None
                   | Some (str, s5) \<Rightarrow> Some (Returns (String str, s5)))
           else if c = CHR ''['' then
             bind_rec (parse_ConArray fuel [] (eliminateWhitespace s2)) (\<lambda>(arr, s3).
               Some (Returns (Array arr, s3)))
           else if c = CHR ''{'' then
             bind_rec (parse_ConObject fuel [] (eliminateWhitespace s2)) (\<lambda>(obj, s3).
               Some (Returns (Object obj, s3)))
           else
             (case istream_extract_double (eliminateWhitespace s2) of
                (None, s3) \<Rightarrow> Some Indeterminate
              | (Some d, s3) \<Rightarrow>
                  bind_read (number_collapse d) (\<lambda>v. Some (Returns (v, s3))))))"
| "parse_ConArray fuel arr s =
     (case istream_extract_char (eliminateWhitespace s) of
        (None, s1) \<Rightarrow> Some Indeterminate
      | (Some c, s1) \<Rightarrow>
          if c \<noteq> CHR ''['' then Some (Returns (arr, set_failbit s1))
          else
            (case istream_extract_char (eliminateWhitespace s1) of (r, s2) \<Rightarrow>
               let c' = (case r of None \<Rightarrow> c | Some x \<Rightarrow> x)
               in if c' = CHR '']'' then Some (Returns (arr, eliminateWhitespace s2))
                  else parse_ConArray_loop fuel c' arr (istream_putback c' s2)))"
| "parse_ConArray_loop 0 c arr s = None"
| "parse_ConArray_loop (Suc fuel) c arr s =
     bind_rec (parse_ConValue fuel (eliminateWhitespace s)) (\<lambda>(v, s1).
       case istream_extract_char (eliminateWhitespace s1) of (r, s2) \<Rightarrow>
         let c' = (case r of None \<Rightarrow> c | Some x \<Rightarrow> x)
         in if c' = CHR '']'' then Some (Returns (arr @ [v], s2))
            else if c' \<noteq> CHR '','' then Some (Returns (arr @ [v], set_failbit s2))
            else parse_ConArray_loop fuel c' (arr @ [v]) s2)"
| "parse_ConObject fuel obj s =
     (case istream_extract_char (eliminateWhitespace s) of
        (None, s1) \<Rightarrow> Some Indeterminate
      | (Some c, s1) \<Rightarrow>
          if c \<noteq> CHR ''{'' then Some (Returns (obj, set_failbit s1))
          else
            (case istream_extract_char (eliminateWhitespace s1) of (r, s2) \<Rightarrow>
               let c' = (case r of None \<Rightarrow> c | Some x \<Rightarrow> x)
               in if c' = CHR ''}'' then Some (Returns (obj, eliminateWhitespace s2))
                  else parse_ConObject_loop fuel c' obj (istream_putback c' s2)))"
| "parse_ConObject_loop 0 c obj s = None"
| "parse_ConObject_loop (Suc fuel) c obj s =
     (case istream_extract_char (eliminateWhitespace s) of (r1, s1) \<Rightarrow>
        let c1 = (case r1 of None \<Rightarrow> c | Some x \<Rightarrow> x)
        in if c1 \<noteq> CHR 0x22 then Some (Returns (obj, set_failbit s1))
           else
             (case getline (CHR 0x22) s1 of (key, s2) \<Rightarrow>
              case istream_extract_char (eliminateWhitespace s2) of (r2, s3) \<Rightarrow>
                let c2 = (case r2 of None \<Rightarrow> c1 | Some x \<Rightarrow> x)
                in if c2 \<noteq> CHR '':'' then Some (Returns (obj, set_failbit s3))
                   else
                     bind_rec (parse_ConValue fuel (eliminateWhitespace s3)) (\<lambda>(v, s4).
                       if failbit s4 then Some (Returns (obj, s4))
                       else
                         (case istream_extract_char (eliminateWhitespace s4) of (r3, s5) \<Rightarrow>
                            let c3 = (case r3 of None \<Rightarrow> c2 | Some x \<Rightarrow> x)
                            in if c3 = CHR ''}'' then Some (Returns (map_assign key v obj, s5))
                               else if c3 \<noteq> CHR '','' then
                                 Some (Returns (map_assign key v obj, set_failbit s5))
                               else parse_ConObject_loop fuel c3 (map_assign key v obj) s5))))"
  by pat_completeness auto
termination
  by (relation "measures [
      (\<lambda>x. case x of
          Inl (Inl (fuel, s)) \<Rightarrow> fuel
        | Inl (Inr (fuel, arr, s)) \<Rightarrow> fuel
        | Inr (Inl (fuel, c, arr, s)) \<Rightarrow> fuel
        | Inr (Inr (Inl (fuel, obj, s))) \<Rightarrow> fuel
        | Inr (Inr (Inr (fuel, c, obj, s))) \<Rightarrow> fuel),
      (\<lambda>x. case x of
          Inl (Inl (fuel, s)) \<Rightarrow> 0
        | Inl (Inr (fuel, arr, s)) \<Rightarrow> 1
        | Inr (Inl (fuel, c, arr, s)) \<Rightarrow> 0
        | Inr (Inr (Inl (fuel, obj, s))) \<Rightarrow> 1
        | Inr (Inr (Inr (fuel, c, obj, s))) \<Rightarrow> 0)]") auto

section \<open>Text printer\<close>

definition digit_char :: "nat \<Rightarrow> char" where
  "digit_char n = char_of (48 + n)"

fun show_nat :: "nat \<Rightarrow> string" where
  "show_nat n = (if n < 10 then [digit_char n] else show_nat (n div 10) @ [digit_char (n mod 10)])"

declare show_nat.simps [simp del]

text \<open>\<^verbatim>\<open>os << int64_t\<close>: the decimal digits, after a minus sign for a negative number.\<close>

definition print_int64 :: "64 word \<Rightarrow> string" where
  "print_int64 i = (if sint i < 0 then CHR ''-'' # show_nat (nat (- sint i)) else show_nat (nat (sint i)))"

text \<open>
  \<^verbatim>\<open>os << double\<close> with the stream's default flags is \<^verbatim>\<open>printf\<close>'s \<^verbatim>\<open>%g\<close> with precision
  6: the value rounded to six significant digits (ties to even, on the exact value),
  in scientific style when the decimal exponent is below \<open>-4\<close> or at least 6 and in fixed
  style otherwise, without trailing zeros. \<open>floor_log10 p q\<close> is the decimal exponent
  of \<open>p / q\<close>.
\<close>

function lead_shift :: "nat \<Rightarrow> nat \<Rightarrow> nat" where
  "lead_shift p q = (if p = 0 \<or> q \<le> p then 0 else Suc (lead_shift (10 * p) q))"
  by pat_completeness auto
termination
  by (relation "measure (\<lambda>(p, q). q - p)") auto

declare lead_shift.simps [simp del]

definition floor_log10 :: "nat \<Rightarrow> nat \<Rightarrow> int" where
  "floor_log10 p q = (if q \<le> p then int (length (show_nat (p div q))) - 1 else - int (lead_shift p q))"

definition strip_zeros :: "string \<Rightarrow> string" where
  "strip_zeros ds = rev (dropWhile (\<lambda>c. c = CHR ''0'') (rev ds))"

definition with_point :: "string \<Rightarrow> string \<Rightarrow> string" where
  "with_point int_digits frac_digits =
     int_digits @ (if strip_zeros frac_digits = [] then [] else CHR ''.'' # strip_zeros frac_digits)"

definition print_exponent :: "int \<Rightarrow> string" where
  "print_exponent X =
     CHR ''e'' # (if X < 0 then CHR ''-'' else CHR ''+'')
       # (if \<bar>X\<bar> < 10 then ''0'' else []) @ show_nat (nat \<bar>X\<bar>)"

definition print_magnitude :: "nat \<Rightarrow> nat \<Rightarrow> string" where
  "print_magnitude p q =
     (let X0 = floor_log10 p q;
          n6 = (if X0 \<ge> 5 then round_half_even p (q * 10 ^ nat (X0 - 5))
                else round_half_even (p * 10 ^ nat (5 - X0)) q);
          X = (if n6 = 10 ^ 6 then X0 + 1 else X0);
          ds = show_nat (if n6 = 10 ^ 6 then 10 ^ 5 else n6)
      in if X < - 4 \<or> X \<ge> 6 then with_point [hd ds] (tl ds) @ print_exponent X
         else if X \<ge> 0 then with_point (take (nat X + 1) ds) (drop (nat X + 1) ds)
         else with_point ''0'' (replicate (nat (- X - 1)) (CHR ''0'') @ ds))"

definition print_double :: "64 word \<Rightarrow> string" where
  "print_double d =
     (if double_sign d then ''-'' else [])
       @ (if double_exponent d = 2047 then (if double_fraction d = 0 then ''inf'' else ''nan'')
          else if double_significand d = 0 then ''0''
          else if double_scale d \<ge> 0
            then print_magnitude (double_significand d * 2 ^ nat (double_scale d)) 1
          else print_magnitude (double_significand d) (2 ^ nat (- double_scale d)))"

text \<open>
  The three \<^verbatim>\<open>operator<<\<close>. An Array or Object is printed with \<^verbatim>\<open>", "\<close> behind every
  entry but the last; the entries of an Object come in the order of the map.
\<close>

function (sequential) print_ConValue :: "ConValue \<Rightarrow> string"
  and print_ConArray :: "ConValue list \<Rightarrow> string"
  and print_ConArray_loop :: "ConValue list \<Rightarrow> string"
  and print_ConObject :: "(string \<times> ConValue) list \<Rightarrow> string"
  and print_ConObject_loop :: "(string \<times> ConValue) list \<Rightarrow> string"
where
  "print_ConValue Null = ''null''"
| "print_ConValue (Boolean b) = (if b then ''true'' else ''false'')"
| "print_ConValue (Integer i) = print_int64 i"
| "print_ConValue (Float d) = print_double d"
| "print_ConValue (String str) = CHR 0x22 # str @ [CHR 0x22]"
| "print_ConValue (Array vs) = print_ConArray vs"
| "print_ConValue (Object kvs) = print_ConObject kvs"
| "print_ConValue (Invalid t) = ''Invalid type''"
| "print_ConArray vs = ''['' @ print_ConArray_loop vs @ '']''"
| "print_ConArray_loop [] = []"
| "print_ConArray_loop (v # vs) =
     print_ConValue v @ (if vs \<noteq> [] then '', '' else []) @ print_ConArray_loop vs"
| "print_ConObject kvs = ''{'' @ print_ConObject_loop kvs @ ''}''"
| "print_ConObject_loop [] = []"
| "print_ConObject_loop ((key, v) # kvs) =
     CHR 0x22 # key @ [CHR 0x22] @ '': '' @ print_ConValue v @ (if kvs \<noteq> [] then '', '' else [])
       @ print_ConObject_loop kvs"
  by pat_completeness auto
termination
  by (relation "measure (\<lambda>x. case x of
      Inl (Inl v) \<Rightarrow> 2 * size v
    | Inl (Inr vs) \<Rightarrow> 2 * size_list size vs + 1
    | Inr (Inl vs) \<Rightarrow> 2 * size_list size vs
    | Inr (Inr (Inl kvs)) \<Rightarrow> 2 * size_list (size_prod (\<lambda>x. 0) size) kvs + 1
    | Inr (Inr (Inr kvs)) \<Rightarrow> 2 * size_list (size_prod (\<lambda>x. 0) size) kvs)") auto


section \<open>Key order\<close>

text \<open>
  The invariant of \<^verbatim>\<open>std::map<std::string, ConValue>\<close> at every Object of a tree: the
  entries are in strictly ascending order of their keys.
\<close>

fun keys_sorted :: "ConValue \<Rightarrow> bool" where
  "keys_sorted (Array vs) = (\<forall>v \<in> set vs. keys_sorted v)"
| "keys_sorted (Object kvs) = (sorted_wrt (<) (map fst kvs) \<and> (\<forall>(key, v) \<in> set kvs. keys_sorted v))"
| "keys_sorted v = True"


section \<open>Values that the text format carries\<close>

text \<open>
  The values whose printed text reads back: Booleans, Integers of magnitude below
  \<open>2 ^ 53\<close> (the parser reads every number as a double), Strings and keys without the
  double quote (nothing is escaped), and Arrays and Objects of such values.
\<close>

fun text_safe :: "ConValue \<Rightarrow> bool" where
  "text_safe (Boolean b) = True"
| "text_safe (Integer i) = (- (2 ^ 53) < sint i \<and> sint i < 2 ^ 53)"
| "text_safe (String str) = (CHR 0x22 \<notin> set str)"
| "text_safe (Array vs) = (\<forall>v \<in> set vs. text_safe v)"
| "text_safe (Object kvs) = (\<forall>(key, v) \<in> set kvs. CHR 0x22 \<notin> set key \<and> text_safe v)"
| "text_safe v = False"

text \<open>
  \<^verbatim>\<open>obj[key] = value\<close> for the entries of a list, one after the other, as both
  \<^verbatim>\<open>ConObject::read\<close> and \<^verbatim>\<open>operator>>\<close> do with the entries they meet.
\<close>

definition assign_all :: "(string \<times> ConValue) list \<Rightarrow> (string \<times> ConValue) list \<Rightarrow> (string \<times> ConValue) list" where
  "assign_all obj kvs = foldl (\<lambda>m (key, v). map_assign key v m) obj kvs"

text \<open>
  The characters around a printed value: what a value starts with, and what follows it
  inside a container (\<open>delimited\<close>) or anywhere (\<open>number_end\<close>, which allows the end of the
  input).
\<close>

definition value_start :: "char \<Rightarrow> bool" where
  "value_start c \<longleftrightarrow> is_digit c \<or> c \<in> set ''tf-\"[{''"

definition number_end :: "string \<Rightarrow> bool" where
  "number_end rest \<longleftrightarrow> rest = [] \<or> hd rest \<in> set '',]}''"

definition delimited :: "string \<Rightarrow> bool" where
  "delimited rest \<longleftrightarrow> rest \<noteq> [] \<and> hd rest \<in> set '',]}''"


section \<open>Properties of the binary codec\<close>

subsection \<open>Fields and frames\<close>

lemma length_le_bytes [simp]: "length (le_bytes n x) = n"
  by (induction n arbitrary: x) auto

lemma le_val_le_bytes: "le_val (le_bytes n x) = x mod 256 ^ n"
proof (induction n arbitrary: x)
  case 0
  then show ?case by simp
next
  case (Suc n)
  have "le_val (le_bytes (Suc n) x) = x mod 256 + 256 * ((x div 256) mod 256 ^ n)"
    using Suc by simp
  also have "\<dots> = x mod 256 ^ Suc n"
    by (simp add: mod_mult2_eq)
  finally show ?case .
qed

lemma length_write_u64 [simp]: "length (write_u64 w) = 8"
  by (simp add: write_u64_def)

lemma read_write_u64 [simp]: "read_u64 (write_u64 w) = w"
proof -
  have "unat w < 2 ^ 64" using unsigned_less [of w, where 'a = nat] by simp
  then have "unat w mod 256 ^ 8 = unat w" by simp
  then show ?thesis by (simp add: read_u64_def write_u64_def le_val_le_bytes)
qed

lemma unat_length: "n < 2 ^ 64 \<Longrightarrow> unat (word_of_nat n :: 64 word) = n"
  by (simp add: unat_of_nat)

lemma istream_read_prefix:
  "good s \<Longrightarrow> buf s = xs @ rest \<Longrightarrow> length xs = n \<Longrightarrow> istream_read n s = (xs, s\<lparr>buf := rest\<rparr>)"
  by (simp add: istream_read_def)

lemma read_field_prefix:
  "good s \<Longrightarrow> buf s = xs @ rest \<Longrightarrow> length xs = n \<Longrightarrow> read_field n s = Returns (xs, s\<lparr>buf := rest\<rparr>)"
  by (simp add: read_field_def istream_read_prefix)

lemma good_buf_update [simp]: "good (s\<lparr>buf := b\<rparr>) = good s"
  by (simp add: good_def)

lemma tags_distinct [simp]:
  "tag_Null \<noteq> tag_Boolean" "tag_Null \<noteq> tag_Integer" "tag_Null \<noteq> tag_Float"
  "tag_Null \<noteq> tag_String" "tag_Null \<noteq> tag_Array" "tag_Null \<noteq> tag_Object"
  "tag_Boolean \<noteq> tag_Integer" "tag_Boolean \<noteq> tag_Float" "tag_Boolean \<noteq> tag_String"
  "tag_Boolean \<noteq> tag_Array" "tag_Boolean \<noteq> tag_Object"
  "tag_Integer \<noteq> tag_Float" "tag_Integer \<noteq> tag_String" "tag_Integer \<noteq> tag_Array"
  "tag_Integer \<noteq> tag_Object"
  "tag_Float \<noteq> tag_String" "tag_Float \<noteq> tag_Array" "tag_Float \<noteq> tag_Object"
  "tag_String \<noteq> tag_Array" "tag_String \<noteq> tag_Object"
  "tag_Array \<noteq> tag_Object"
  by (simp_all add: tag_Null_def tag_Boolean_def tag_Integer_def tag_Float_def tag_String_def
        tag_Array_def tag_Object_def)

lemma read_tag:
  "good s \<Longrightarrow> buf s = t # rest \<Longrightarrow> read_field (Suc 0) s = Returns ([t], s\<lparr>buf := rest\<rparr>)"
  using read_field_prefix [of s "[t]" rest "Suc 0"] by simp

lemma read_u64_field:
  "good s \<Longrightarrow> buf s = write_u64 w @ rest \<Longrightarrow> read_field 8 s = Returns (write_u64 w, s\<lparr>buf := rest\<rparr>)"
  by (rule read_field_prefix) simp_all

lemma read_sized_frame:
  assumes "good s" "buf s = write_u64 (word_of_nat (length xs)) @ xs @ rest" "length xs < 2 ^ 64"
  shows "read_sized s = Returns (xs, s\<lparr>buf := rest\<rparr>)"
proof -
  have 1: "read_field 8 s = Returns (write_u64 (word_of_nat (length xs)), s\<lparr>buf := xs @ rest\<rparr>)"
    using assms by (intro read_u64_field) simp_all
  have 2: "read_field (length xs) (s\<lparr>buf := xs @ rest\<rparr>) = Returns (xs, s\<lparr>buf := rest\<rparr>)"
    using read_field_prefix [of "s\<lparr>buf := xs @ rest\<rparr>" xs rest "length xs"] assms(1) by simp
  show ?thesis
    using assms(3) by (simp add: read_sized_def 1 2 unat_length)
qed

lemma read_sized_zeroed_frame:
  assumes "good s" "buf s = write_u64 (word_of_nat (length xs)) @ xs @ rest" "length xs < 2 ^ 64"
  shows "read_sized_zeroed s = Returns (xs, s\<lparr>buf := rest\<rparr>)"
proof -
  have 1: "read_field 8 s = Returns (write_u64 (word_of_nat (length xs)), s\<lparr>buf := xs @ rest\<rparr>)"
    using assms by (intro read_u64_field) simp_all
  have 2: "istream_read (length xs) (s\<lparr>buf := xs @ rest\<rparr>) = (xs, s\<lparr>buf := rest\<rparr>)"
    using istream_read_prefix [of "s\<lparr>buf := xs @ rest\<rparr>" xs rest "length xs"] assms(1) by simp
  show ?thesis
    using assms(3) by (simp add: read_sized_zeroed_def 1 2 unat_length)
qed

lemma map_assign_append:
  "\<forall>k' \<in> fst ` set m. k' < k \<Longrightarrow> map_assign k v m = m @ [(k, v)]"
  by (induction m) (auto simp: less_le_not_le)

lemma bind_simps [simp]:
  "bind_read (Returns x) f = f x"
  "bind_read Indeterminate f = Some Indeterminate"
  "bind_rec None f = None"
  "bind_rec (Some r) f = bind_read r f"
  by (simp_all add: bind_read_def bind_rec_def)

lemma istream_of_good [simp]: "good (istream_of str)" "buf (istream_of str) = str"
  by (simp_all add: istream_of_def good_def)

declare ConArray_write.simps [simp del] ConObject_write.simps [simp del]
  ConArray_read.simps [simp del] ConObject_read.simps [simp del]

lemmas tag_defs = tag_Null_def tag_Boolean_def tag_Integer_def tag_Float_def tag_String_def
  tag_Array_def tag_Object_def

lemma ConArray_read_loop_roundtrip:
  assumes "\<And>v s rest. v \<in> set vs \<Longrightarrow> good s \<Longrightarrow> buf s = ConValue_write zc (level + 1) v @ rest
            \<Longrightarrow> ConValue_read zd fuel s = Some (Returns (v, s\<lparr>buf := rest\<rparr>))"
    and "good s" and "buf s = ConArray_write_loop zc level vs @ rest"
  shows "ConArray_read_loop zd fuel (length vs) acc s = Some (Returns (acc @ vs, s\<lparr>buf := rest\<rparr>))"
  using assms
proof (induction vs arbitrary: acc s)
  case Nil
  then show ?case by simp
next
  case (Cons v vs)
  have "ConValue_read zd fuel s
          = Some (Returns (v, s\<lparr>buf := ConArray_write_loop zc level vs @ rest\<rparr>))"
    using Cons.prems(2,3) by (intro Cons.prems(1)) simp_all
  moreover have "ConArray_read_loop zd fuel (length vs) (acc @ [v])
                   (s\<lparr>buf := ConArray_write_loop zc level vs @ rest\<rparr>)
                 = Some (Returns ((acc @ [v]) @ vs, s\<lparr>buf := rest\<rparr>))"
    using Cons.IH [of "s\<lparr>buf := ConArray_write_loop zc level vs @ rest\<rparr>" "acc @ [v]"]
      Cons.prems(1,2) by simp
  ultimately show ?case by simp
qed

lemma ConArray_read_roundtrip:
  assumes "\<And>v s rest. v \<in> set vs \<Longrightarrow> good s \<Longrightarrow> buf s = ConValue_write zc (level + 1) v @ rest
            \<Longrightarrow> ConValue_read zd fuel s = Some (Returns (v, s\<lparr>buf := rest\<rparr>))"
    and "good s" and "buf s = ConArray_write zc level vs @ rest" and "length vs < 2 ^ 64"
  shows "ConArray_read zd fuel s = Some (Returns (vs, s\<lparr>buf := rest\<rparr>))"
proof -
  let ?s1 = "s\<lparr>buf := ConArray_write_loop zc level vs @ rest\<rparr>"
  have 1: "read_field 8 s = Returns (write_u64 (word_of_nat (length vs)), ?s1)"
    using assms(2,3) by (intro read_u64_field) (simp_all add: ConArray_write.simps)
  have 2: "ConArray_read_loop zd fuel (length vs) [] ?s1 = Some (Returns ([] @ vs, ?s1\<lparr>buf := rest\<rparr>))"
    using assms(1,2) by (intro ConArray_read_loop_roundtrip [where zc = zc and level = level]) simp_all
  show ?thesis
    using assms(4) by (simp add: ConArray_read.simps 1 2 unat_length)
qed

lemma ConObject_read_loop_roundtrip:
  assumes "\<And>key v s rest. (key, v) \<in> set kvs \<Longrightarrow> good s \<Longrightarrow> buf s = ConValue_write zc (level + 1) v @ rest
            \<Longrightarrow> ConValue_read zd fuel s = Some (Returns (v, s\<lparr>buf := rest\<rparr>))"
    and "good s" and "buf s = ConObject_write_loop zc level kvs @ rest"
    and "\<forall>(key, v) \<in> set kvs. length key < 2 ^ 64"
    and "sorted_wrt (<) (map fst (acc @ kvs))"
  shows "ConObject_read_loop zd fuel (length kvs) acc s = Some (Returns (acc @ kvs, s\<lparr>buf := rest\<rparr>))"
  using assms
proof (induction kvs arbitrary: acc s)
  case Nil
  then show ?case by simp
next
  case (Cons kv kvs)
  obtain key v where kv: "kv = (key, v)" by (cases kv)
  let ?tail = "ConObject_write_loop zc level kvs @ rest"
  let ?s1 = "s\<lparr>buf := key @ ConValue_write zc (level + 1) v @ ?tail\<rparr>"
  let ?s2 = "s\<lparr>buf := ConValue_write zc (level + 1) v @ ?tail\<rparr>"
  let ?s3 = "s\<lparr>buf := ?tail\<rparr>"
  have len: "length key < 2 ^ 64" using Cons.prems(4) kv by simp
  have 1: "read_field 8 s = Returns (write_u64 (word_of_nat (length key)), ?s1)"
    using Cons.prems(2,3) kv by (intro read_u64_field) simp_all
  have 2: "read_field (length key) ?s1 = Returns (key, ?s2)"
    using read_field_prefix [of ?s1 key "ConValue_write zc (level + 1) v @ ?tail" "length key"]
      Cons.prems(2) by simp
  have 3: "ConValue_read zd fuel ?s2 = Some (Returns (v, ?s3))"
    using Cons.prems(1) [of key v ?s2 ?tail] Cons.prems(2) kv by simp
  have 4: "map_assign key v acc = acc @ [(key, v)]"
    using Cons.prems(5) kv by (intro map_assign_append) (auto simp: sorted_wrt_append)
  have 5: "ConObject_read_loop zd fuel (length kvs) (acc @ [(key, v)]) ?s3
             = Some (Returns ((acc @ [(key, v)]) @ kvs, ?s3\<lparr>buf := rest\<rparr>))"
  proof (rule Cons.IH)
    show "good ?s3" using Cons.prems(2) by simp
    show "buf ?s3 = ?tail" by simp
    show "\<forall>(key, v) \<in> set kvs. length key < 2 ^ 64" using Cons.prems(4) by simp
    show "sorted_wrt (<) (map fst ((acc @ [(key, v)]) @ kvs))" using Cons.prems(5) kv by simp
    show "ConValue_read zd fuel s' = Some (Returns (v', s'\<lparr>buf := rest'\<rparr>))"
      if "(key', v') \<in> set kvs" "good s'" "buf s' = ConValue_write zc (level + 1) v' @ rest'"
      for key' v' s' rest'
      using that Cons.prems(1) [of key' v' s' rest'] by simp
  qed
  show ?case
    using len by (simp add: kv 1 2 3 4 5 unat_length)
qed

lemma ConObject_read_roundtrip:
  assumes "\<And>key v s rest. (key, v) \<in> set kvs \<Longrightarrow> good s \<Longrightarrow> buf s = ConValue_write zc (level + 1) v @ rest
            \<Longrightarrow> ConValue_read zd fuel s = Some (Returns (v, s\<lparr>buf := rest\<rparr>))"
    and "good s" and "buf s = ConObject_write zc level kvs @ rest" and "length kvs < 2 ^ 64"
    and "\<forall>(key, v) \<in> set kvs. length key < 2 ^ 64"
    and "sorted_wrt (<) (map fst kvs)"
  shows "ConObject_read zd fuel s = Some (Returns (kvs, s\<lparr>buf := rest\<rparr>))"
proof -
  let ?s1 = "s\<lparr>buf := ConObject_write_loop zc level kvs @ rest\<rparr>"
  have 1: "read_field 8 s = Returns (write_u64 (word_of_nat (length kvs)), ?s1)"
    using assms(2,3) by (intro read_u64_field) (simp_all add: ConObject_write.simps)
  have 2: "ConObject_read_loop zd fuel (length kvs) [] ?s1 = Some (Returns ([] @ kvs, ?s1\<lparr>buf := rest\<rparr>))"
    using assms(1,2,5,6) by (intro ConObject_read_loop_roundtrip [where zc = zc and level = level]) simp_all
  show ?thesis
    using assms(4) by (simp add: ConObject_read.simps 1 2 unat_length)
qed

text \<open>The framing of one node, given that its body decodes.\<close>

lemma read_String_frame:
  assumes "good s" "buf s = frame_String zc level str @ rest" "length str < 2 ^ 64"
    and "COMPRESS_COMPARE (length str) level \<Longrightarrow> zd (zc str) = str \<and> length (zc str) < 2 ^ 64"
  shows "read_String zd s = Some (Returns (String str, s\<lparr>buf := rest\<rparr>))"
proof (cases "COMPRESS_COMPARE (length str) level")
  case True
  let ?s1 = "s\<lparr>buf := write_u64 (word_of_nat (length (zc str))) @ zc str @ rest\<rparr>"
  have 1: "read_field (Suc 0) s = Returns ([CHR 0x01], ?s1)"
    using assms(1,2) True by (intro read_tag) (simp_all add: frame_String_def Let_def)
  have 2: "read_sized ?s1 = Returns (zc str, ?s1\<lparr>buf := rest\<rparr>)"
    using assms(1,4) True by (intro read_sized_frame) simp_all
  show ?thesis using assms(4) True by (simp add: read_String_def 1 2)
next
  case False
  let ?s1 = "s\<lparr>buf := write_u64 (word_of_nat (length str)) @ str @ rest\<rparr>"
  have 1: "read_field (Suc 0) s = Returns ([CHR 0x00], ?s1)"
    using assms(1,2) False by (intro read_tag) (simp_all add: frame_String_def)
  have 2: "read_sized ?s1 = Returns (str, ?s1\<lparr>buf := rest\<rparr>)"
    using assms(1,3) by (intro read_sized_frame) simp_all
  show ?thesis by (simp add: read_String_def 1 2)
qed

lemma ConValue_read_Array_frame:
  assumes "good s" "buf s = ConValue_write zc level (Array vs) @ rest"
    and "COMPRESS_COMPARE (length (ConArray_write zc level vs)) level \<Longrightarrow>
           zd (zc (ConArray_write zc level vs)) = ConArray_write zc level vs
           \<and> length (zc (ConArray_write zc level vs)) < 2 ^ 64"
    and "\<And>s rest. good s \<Longrightarrow> buf s = ConArray_write zc level vs @ rest
           \<Longrightarrow> ConArray_read zd fuel s = Some (Returns (vs, s\<lparr>buf := rest\<rparr>))"
  shows "ConValue_read zd (Suc fuel) s = Some (Returns (Array vs, s\<lparr>buf := rest\<rparr>))"
proof -
  let ?body = "ConArray_write zc level vs"
  let ?s1 = "s\<lparr>buf := frame_container zc level ?body @ rest\<rparr>"
  have 1: "read_field (Suc 0) s = Returns ([tag_Array], ?s1)"
    using assms(1,2) by (intro read_tag) simp_all
  show ?thesis
  proof (cases "COMPRESS_COMPARE (length ?body) level")
    case True
    let ?s2 = "s\<lparr>buf := write_u64 (word_of_nat (length (zc ?body))) @ zc ?body @ rest\<rparr>"
    have 2: "read_field (Suc 0) ?s1 = Returns ([CHR 0x01], ?s1\<lparr>buf := buf ?s2\<rparr>)"
      using assms(1) True by (intro read_tag) (simp_all add: frame_container_def Let_def)
    have 3: "read_sized ?s2 = Returns (zc ?body, ?s2\<lparr>buf := rest\<rparr>)"
      using assms(1,3) True by (intro read_sized_frame) simp_all
    have 4: "ConArray_read zd fuel (istream_of ?body) = Some (Returns (vs, (istream_of ?body)\<lparr>buf := []\<rparr>))"
      by (intro assms(4)) simp_all
    show ?thesis using assms(3) True by (simp add: 1 2 3 4 tag_defs)
  next
    case False
    let ?s2 = "s\<lparr>buf := ?body @ rest\<rparr>"
    have 2: "read_field (Suc 0) ?s1 = Returns ([CHR 0x00], ?s1\<lparr>buf := buf ?s2\<rparr>)"
      using assms(1) False by (intro read_tag) (simp_all add: frame_container_def)
    have 3: "ConArray_read zd fuel ?s2 = Some (Returns (vs, ?s2\<lparr>buf := rest\<rparr>))"
      using assms(1) by (intro assms(4)) simp_all
    show ?thesis by (simp add: 1 2 3 tag_defs)
  qed
qed

lemma ConValue_read_Object_frame:
  assumes "good s" "buf s = ConValue_write zc level (Object kvs) @ rest"
    and "COMPRESS_COMPARE (length (ConObject_write zc level kvs)) level \<Longrightarrow>
           zd (zc (ConObject_write zc level kvs)) = ConObject_write zc level kvs
           \<and> length (zc (ConObject_write zc level kvs)) < 2 ^ 64"
    and "\<And>s rest. good s \<Longrightarrow> buf s = ConObject_write zc level kvs @ rest
           \<Longrightarrow> ConObject_read zd fuel s = Some (Returns (kvs, s\<lparr>buf := rest\<rparr>))"
  shows "ConValue_read zd (Suc fuel) s = Some (Returns (Object kvs, s\<lparr>buf := rest\<rparr>))"
proof -
  let ?body = "ConObject_write zc level kvs"
  let ?s1 = "s\<lparr>buf := frame_container zc level ?body @ rest\<rparr>"
  have 1: "read_field (Suc 0) s = Returns ([tag_Object], ?s1)"
    using assms(1,2) by (intro read_tag) simp_all
  show ?thesis
  proof (cases "COMPRESS_COMPARE (length ?body) level")
    case True
    let ?s2 = "s\<lparr>buf := write_u64 (word_of_nat (length (zc ?body))) @ zc ?body @ rest\<rparr>"
    have 2: "read_field (Suc 0) ?s1 = Returns ([CHR 0x01], ?s1\<lparr>buf := buf ?s2\<rparr>)"
      using assms(1) True by (intro read_tag) (simp_all add: frame_container_def Let_def)
    have 3: "read_sized_zeroed ?s2 = Returns (zc ?body, ?s2\<lparr>buf := rest\<rparr>)"
      using assms(1,3) True by (intro read_sized_zeroed_frame) simp_all
    have 4: "ConObject_read zd fuel (istream_of ?body) = Some (Returns (kvs, (istream_of ?body)\<lparr>buf := []\<rparr>))"
      by (intro assms(4)) simp_all
    show ?thesis using assms(3) True by (simp add: 1 2 3 4 tag_defs)
  next
    case False
    let ?s2 = "s\<lparr>buf := ?body @ rest\<rparr>"
    have 2: "read_field (Suc 0) ?s1 = Returns ([CHR 0x00], ?s1\<lparr>buf := buf ?s2\<rparr>)"
      using assms(1) False by (intro read_tag) (simp_all add: frame_container_def)
    have 3: "ConObject_read zd fuel ?s2 = Some (Returns (kvs, ?s2\<lparr>buf := rest\<rparr>))"
      using assms(1) by (intro assms(4)) simp_all
    show ?thesis by (simp add: 1 2 3 tag_defs)
  qed
qed

lemma ConValue_read_scalar:
  assumes "good s" "buf s = ConValue_write zc level v @ rest"
    and "v = Null \<or> (\<exists>b. v = Boolean b) \<or> (\<exists>i. v = Integer i) \<or> (\<exists>d. v = Float d)"
  shows "ConValue_read zd (Suc fuel) s = Some (Returns (v, s\<lparr>buf := rest\<rparr>))"
proof -
  consider "v = Null" | b where "v = Boolean b" | i where "v = Integer i" | d where "v = Float d"
    using assms(3) by blast
  then show ?thesis
  proof cases
    case 1
    have "read_field (Suc 0) s = Returns ([tag_Null], s\<lparr>buf := rest\<rparr>)"
      using assms 1 by (intro read_tag) simp_all
    then show ?thesis by (simp add: 1 tag_defs)
  next
    case 2
    let ?s1 = "s\<lparr>buf := write_bool b @ rest\<rparr>"
    have 1: "read_field (Suc 0) s = Returns ([tag_Boolean], ?s1)"
      using assms 2 by (intro read_tag) simp_all
    have 3: "read_field (Suc 0) ?s1 = Returns ([if b then CHR 0x01 else CHR 0x00], s\<lparr>buf := rest\<rparr>)"
      using read_tag [of ?s1 "if b then CHR 0x01 else CHR 0x00" rest] assms(1)
      by (simp add: write_bool_def)
    show ?thesis by (simp add: 2 1 3 read_Boolean_def read_bool_def)
  next
    case 3
    let ?s1 = "s\<lparr>buf := write_u64 i @ rest\<rparr>"
    have 1: "read_field (Suc 0) s = Returns ([tag_Integer], ?s1)"
      using assms 3 by (intro read_tag) simp_all
    have 2: "read_field 8 ?s1 = Returns (write_u64 i, ?s1\<lparr>buf := rest\<rparr>)"
      using assms(1) by (intro read_u64_field) simp_all
    show ?thesis by (simp add: 3 1 2 read_Integer_def tag_defs)
  next
    case 4
    let ?s1 = "s\<lparr>buf := write_u64 d @ rest\<rparr>"
    have 1: "read_field (Suc 0) s = Returns ([tag_Float], ?s1)"
      using assms 4 by (intro read_tag) simp_all
    have 2: "read_field 8 ?s1 = Returns (write_u64 d, ?s1\<lparr>buf := rest\<rparr>)"
      using assms(1) by (intro read_u64_field) simp_all
    show ?thesis by (simp add: 4 1 2 read_Float_def tag_defs)
  qed
qed

lemma ConValue_read_String:
  assumes "good s" "buf s = ConValue_write zc level (String str) @ rest" "length str < 2 ^ 64"
    and "COMPRESS_COMPARE (length str) level \<Longrightarrow> zd (zc str) = str \<and> length (zc str) < 2 ^ 64"
  shows "ConValue_read zd (Suc fuel) s = Some (Returns (String str, s\<lparr>buf := rest\<rparr>))"
proof -
  let ?s1 = "s\<lparr>buf := frame_String zc level str @ rest\<rparr>"
  have 1: "read_field (Suc 0) s = Returns ([tag_String], ?s1)"
    using assms(1,2) by (intro read_tag) simp_all
  have 2: "read_String zd ?s1 = Some (Returns (String str, ?s1\<lparr>buf := rest\<rparr>))"
    using assms(1,3,4) by (intro read_String_frame [where zc = zc and level = level]) simp_all
  show ?thesis by (simp add: 1 2 tag_defs)
qed

lemma COMPRESS_COMPARE_level: "COMPRESS_COMPARE n level \<Longrightarrow> level = 0"
  by (simp add: COMPRESS_COMPARE_def COMPRESSION_LEVEL_MAX_def)

text \<open>Below the root nothing is compressed, and the decoder needs nothing of zlib.\<close>

lemma ConValue_read_write_nested:
  "well_formed v \<Longrightarrow> size v < fuel \<Longrightarrow> level \<noteq> 0 \<Longrightarrow> unat level + size v < 2 ^ 64 \<Longrightarrow> good s
     \<Longrightarrow> buf s = ConValue_write zc level v @ rest
     \<Longrightarrow> ConValue_read zd fuel s = Some (Returns (v, s\<lparr>buf := rest\<rparr>))"
proof (induction v arbitrary: fuel s level rest)
  case Null
  then obtain f where f: "fuel = Suc f" by (cases fuel) auto
  show ?case unfolding f
    using Null.prems by (intro ConValue_read_scalar [where zc = zc and level = level]) simp_all
next
  case (Boolean b)
  then obtain f where f: "fuel = Suc f" by (cases fuel) auto
  show ?case unfolding f
    using Boolean.prems by (intro ConValue_read_scalar [where zc = zc and level = level]) simp_all
next
  case (Integer i)
  then obtain f where f: "fuel = Suc f" by (cases fuel) auto
  show ?case unfolding f
    using Integer.prems by (intro ConValue_read_scalar [where zc = zc and level = level]) simp_all
next
  case (Float d)
  then obtain f where f: "fuel = Suc f" by (cases fuel) auto
  show ?case unfolding f
    using Float.prems by (intro ConValue_read_scalar [where zc = zc and level = level]) simp_all
next
  case (String str)
  then obtain f where f: "fuel = Suc f" by (cases fuel) auto
  show ?case unfolding f
    using String.prems by (intro ConValue_read_String [where zc = zc and level = level])
      (auto dest: COMPRESS_COMPARE_level)
next
  case (Array vs)
  then obtain f where f: "fuel = Suc f" by (cases fuel) auto
  have elems: "ConValue_read zd f s' = Some (Returns (v, s'\<lparr>buf := rest'\<rparr>))"
    if "v \<in> set vs" "good s'" "buf s' = ConValue_write zc (level + 1) v @ rest'" for v s' rest'
  proof (rule Array.IH [OF that(1) _ _ _ _ that(2,3)])
    show "well_formed v" using Array.prems(1) that(1) by simp
    have sz: "size v \<le> size_list size vs" using that(1) by (rule size_list_estimation') simp
    then show "size v < f" using Array.prems(2) f by simp
    have "unat level + unat (1 :: 64 word) < 2 ^ 64" using Array.prems(4) by simp
    then have u: "unat (level + 1) = unat level + 1" by (simp add: unat_add_lem [THEN iffD1])
    then show "level + 1 \<noteq> 0" by (metis Suc_eq_plus1 nat.simps(3) unat_0_iff)
    show "unat (level + 1) + size v < 2 ^ 64" using u sz Array.prems(4) by simp
  qed
  show ?case unfolding f
  proof (rule ConValue_read_Array_frame [where zc = zc and level = level])
    show "good s" "buf s = ConValue_write zc level (Array vs) @ rest" using Array.prems by simp_all
    show "zd (zc (ConArray_write zc level vs)) = ConArray_write zc level vs
           \<and> length (zc (ConArray_write zc level vs)) < 2 ^ 64"
      if "COMPRESS_COMPARE (length (ConArray_write zc level vs)) level"
      using that Array.prems(3) by (auto dest: COMPRESS_COMPARE_level)
    show "ConArray_read zd f s' = Some (Returns (vs, s'\<lparr>buf := rest'\<rparr>))"
      if "good s'" "buf s' = ConArray_write zc level vs @ rest'" for s' rest'
      using that elems Array.prems(1) by (intro ConArray_read_roundtrip [where zc = zc and level = level]) simp_all
  qed
next
  case (Object kvs)
  then obtain f where f: "fuel = Suc f" by (cases fuel) auto
  have elems: "ConValue_read zd f s' = Some (Returns (v, s'\<lparr>buf := rest'\<rparr>))"
    if "(key, v) \<in> set kvs" "good s'" "buf s' = ConValue_write zc (level + 1) v @ rest'" for key v s' rest'
  proof (rule Object.IH [OF that(1) _ _ _ _ _ that(2,3)])
    show "v \<in> Basic_BNFs.snds (key, v)" by simp
    show "well_formed v" using Object.prems(1) that(1) by auto
    have sz: "size v \<le> size_list (size_prod (\<lambda>x. 0) size) kvs"
      using that(1) by (rule size_list_estimation') simp
    then show "size v < f" using Object.prems(2) f by simp
    have "unat level + unat (1 :: 64 word) < 2 ^ 64" using Object.prems(4) by simp
    then have u: "unat (level + 1) = unat level + 1" by (simp add: unat_add_lem [THEN iffD1])
    then show "level + 1 \<noteq> 0" by (metis Suc_eq_plus1 nat.simps(3) unat_0_iff)
    show "unat (level + 1) + size v < 2 ^ 64" using u sz Object.prems(4) by simp
  qed
  have lens: "length kvs < 2 ^ 64" "\<forall>(key, v) \<in> set kvs. length key < 2 ^ 64"
    "sorted_wrt (<) (map fst kvs)"
    using Object.prems(1) by auto
  show ?case unfolding f
  proof (rule ConValue_read_Object_frame [where zc = zc and level = level])
    show "good s" "buf s = ConValue_write zc level (Object kvs) @ rest" using Object.prems by simp_all
    show "zd (zc (ConObject_write zc level kvs)) = ConObject_write zc level kvs
           \<and> length (zc (ConObject_write zc level kvs)) < 2 ^ 64"
      if "COMPRESS_COMPARE (length (ConObject_write zc level kvs)) level"
      using that Object.prems(3) by (auto dest: COMPRESS_COMPARE_level)
    show "ConObject_read zd f s' = Some (Returns (kvs, s'\<lparr>buf := rest'\<rparr>))"
      if "good s'" "buf s' = ConObject_write zc level kvs @ rest'" for s' rest'
      using that elems lens by (intro ConObject_read_roundtrip [where zc = zc and level = level]) simp_all
  qed
next
  case (Invalid t)
  then show ?case by simp
qed


lemma istream_of_buf_update [simp]: "(istream_of str)\<lparr>buf := b\<rparr> = istream_of b"
  by (simp add: istream_of_def)

lemma compressed_fits:
  assumes "length (tag # frame_container zc level body) < 2 ^ 64" "COMPRESS_COMPARE (length body) level"
  shows "length (zc body) < 2 ^ 64"
  using assms by (simp add: frame_container_def Let_def)


subsection \<open>Round trip\<close>

lemma ConValue_read_write_root:
  assumes lossless: "\<And>x. zdecompress (zcompress x) = x"
    and v: "constructible v"
    and fits: "length (ConValue_write zcompress 0 v) < 2 ^ 64"
    and fuel: "size v < fuel"
    and s: "good s" "buf s = ConValue_write zcompress 0 v @ rest"
  shows "ConValue_read zdecompress fuel s = Some (Returns (v, s\<lparr>buf := rest\<rparr>))"
proof -
  obtain f where f: "fuel = Suc f" using fuel by (cases fuel) auto
  have wf: "well_formed v" and sz: "size v < 2 ^ 64"
    using v by (simp_all add: constructible_def)
  have nested: "ConValue_read zdecompress f s' = Some (Returns (c, s'\<lparr>buf := rest'\<rparr>))"
    if "well_formed c" "size c < size v" "good s'" "buf s' = ConValue_write zcompress (0 + 1) c @ rest'"
    for c s' rest'
    using that fuel sz f
    by (intro ConValue_read_write_nested [where zc = zcompress and level = 1]) simp_all
  have "ConValue_read zdecompress (Suc f) s = Some (Returns (v, s\<lparr>buf := rest\<rparr>))"
  proof (cases v)
    case Null
    show ?thesis
      using s by (intro ConValue_read_scalar [where zc = zcompress and level = 0]) (simp_all add: Null)
  next
    case (Boolean b)
    show ?thesis
      using s by (intro ConValue_read_scalar [where zc = zcompress and level = 0]) (simp_all add: Boolean)
  next
    case (Integer i)
    show ?thesis
      using s by (intro ConValue_read_scalar [where zc = zcompress and level = 0]) (simp_all add: Integer)
  next
    case (Float d)
    show ?thesis
      using s by (intro ConValue_read_scalar [where zc = zcompress and level = 0]) (simp_all add: Float)
  next
    case (String str)
    have "length (zcompress str) < 2 ^ 64" if "COMPRESS_COMPARE (length str) 0"
      using that fits by (simp add: String frame_String_def Let_def)
    then show ?thesis
      using wf lossless s unfolding String
      by (intro ConValue_read_String [where zc = zcompress and level = 0]) simp_all
  next
    case (Array vs)
    have elems: "ConValue_read zdecompress f s' = Some (Returns (c, s'\<lparr>buf := rest'\<rparr>))"
      if "c \<in> set vs" "good s'" "buf s' = ConValue_write zcompress (0 + 1) c @ rest'" for c s' rest'
    proof (rule nested [OF _ _ that(2,3)])
      show "well_formed c" using wf that(1) by (simp add: Array)
      have "size c \<le> size_list size vs" using that(1) by (rule size_list_estimation') simp
      then show "size c < size v" by (simp add: Array)
    qed
    show ?thesis unfolding Array
    proof (rule ConValue_read_Array_frame [where zc = zcompress and level = 0])
      show "good s" "buf s = ConValue_write zcompress 0 (Array vs) @ rest"
        using s by (simp_all add: Array)
      show "zdecompress (zcompress (ConArray_write zcompress 0 vs)) = ConArray_write zcompress 0 vs
             \<and> length (zcompress (ConArray_write zcompress 0 vs)) < 2 ^ 64"
        if "COMPRESS_COMPARE (length (ConArray_write zcompress 0 vs)) 0"
        using that fits lossless compressed_fits [of tag_Array zcompress 0] by (simp add: Array)
      show "ConArray_read zdecompress f s' = Some (Returns (vs, s'\<lparr>buf := rest'\<rparr>))"
        if "good s'" "buf s' = ConArray_write zcompress 0 vs @ rest'" for s' rest'
        using that elems wf
        by (intro ConArray_read_roundtrip [where zc = zcompress and level = 0]) (simp_all add: Array)
    qed
  next
    case (Object kvs)
    have elems: "ConValue_read zdecompress f s' = Some (Returns (c, s'\<lparr>buf := rest'\<rparr>))"
      if "(key, c) \<in> set kvs" "good s'" "buf s' = ConValue_write zcompress (0 + 1) c @ rest'"
      for key c s' rest'
    proof (rule nested [OF _ _ that(2,3)])
      show "well_formed c" using wf that(1) by (auto simp: Object)
      have "size c \<le> size_list (size_prod (\<lambda>x. 0) size) kvs"
        using that(1) by (rule size_list_estimation') simp
      then show "size c < size v" by (simp add: Object)
    qed
    have lens: "length kvs < 2 ^ 64" "\<forall>(key, v) \<in> set kvs. length key < 2 ^ 64"
      "sorted_wrt (<) (map fst kvs)"
      using wf by (auto simp: Object)
    show ?thesis unfolding Object
    proof (rule ConValue_read_Object_frame [where zc = zcompress and level = 0])
      show "good s" "buf s = ConValue_write zcompress 0 (Object kvs) @ rest"
        using s by (simp_all add: Object)
      show "zdecompress (zcompress (ConObject_write zcompress 0 kvs)) = ConObject_write zcompress 0 kvs
             \<and> length (zcompress (ConObject_write zcompress 0 kvs)) < 2 ^ 64"
        if "COMPRESS_COMPARE (length (ConObject_write zcompress 0 kvs)) 0"
        using that fits lossless compressed_fits [of tag_Object zcompress 0] by (simp add: Object)
      show "ConObject_read zdecompress f s' = Some (Returns (kvs, s'\<lparr>buf := rest'\<rparr>))"
        if "good s'" "buf s' = ConObject_write zcompress 0 kvs @ rest'" for s' rest'
        using that elems lens
        by (intro ConObject_read_roundtrip [where zc = zcompress and level = 0]) simp_all
    qed
  next
    case (Invalid t)
    then show ?thesis using wf by simp
  qed
  then show ?thesis by (simp add: f)
qed

text \<open>
  C1. Binary round trip. Let \<open>zdecompress\<close> undo \<open>zcompress\<close>, let \<open>v\<close> be a value a
  program can build and let its encoding be shorter than \<open>2 ^ 64\<close> bytes (it is held in a
  \<^verbatim>\<open>std::string\<close>). Then decoding the bytes that \<^verbatim>\<open>ConValue::write\<close> produces for \<open>v\<close> at
  the default level 0 returns \<open>v\<close> itself, with the stream exhausted and no flag raised,
  for any fuel above the number of nodes of \<open>v\<close>. An Object is the list of its entries
  in key order, so equality of Objects is equality of the sorted entries.
\<close>

theorem binary_round_trip:
  assumes "\<And>x. zdecompress (zcompress x) = x"
    and "constructible v"
    and "length (ConValue_write zcompress 0 v) < 2 ^ 64"
    and "size v < fuel"
  shows "ConValue_read zdecompress fuel (istream_of (ConValue_write zcompress 0 v))
           = Some (Returns (v, istream_of []))"
  using ConValue_read_write_root [OF assms, of "istream_of (ConValue_write zcompress 0 v)" "[]"]
  by simp

theorem binary_round_trip_witness:
  "ConValue_read (\<lambda>x. x) 10 (istream_of (ConValue_write (\<lambda>x. x) 0
       (Object [(''a'', Array [Integer 5, Null]), (''b'', String ''hi'')])))
   = Some (Returns (Object [(''a'', Array [Integer 5, Null]), (''b'', String ''hi'')], istream_of []))"
  by (rule binary_round_trip) (simp_all add: constructible_def ConArray_write.simps ConObject_write.simps
      frame_container_def frame_String_def COMPRESS_COMPARE_def COMPRESSION_THRESHOLD_def write_bool_def)


subsection \<open>Compression policy\<close>






subsection \<open>Framing\<close>

text \<open>
  C3. Framing asymmetry. An Array or Object that is not compressed is written as its
  tag, the flag 0 and the body, with no length; a String that is not compressed has its
  8-byte length between the flag and its characters. Reading tag and flag 0 of an Array
  or Object hands the live stream, as it is behind the flag, to \<^verbatim>\<open>ConArray::read\<close> or
  \<^verbatim>\<open>ConObject::read\<close>; for a String the length is read and that many characters. The
  body ends where its own structure ends: whatever follows the encoding of a value is
  left in the stream.
\<close>

theorem framing_asymmetry:
  "(\<not> COMPRESS_COMPARE (length (ConArray_write zc level vs)) level \<longrightarrow>
      ConValue_write zc level (Array vs) = tag_Array # CHR 0x00 # ConArray_write zc level vs)
   \<and> (\<not> COMPRESS_COMPARE (length (ConObject_write zc level kvs)) level \<longrightarrow>
      ConValue_write zc level (Object kvs) = tag_Object # CHR 0x00 # ConObject_write zc level kvs)
   \<and> (\<not> COMPRESS_COMPARE (length str) level \<longrightarrow>
      ConValue_write zc level (String str) =
        tag_String # CHR 0x00 # write_u64 (word_of_nat (length str)) @ str)
   \<and> (good sa \<and> buf sa = tag_Array # CHR 0x00 # resta \<longrightarrow>
      ConValue_read zd (Suc fuel) sa =
        bind_rec (ConArray_read zd fuel (sa\<lparr>buf := resta\<rparr>)) (\<lambda>(arr, s'). Some (Returns (Array arr, s'))))
   \<and> (good so \<and> buf so = tag_Object # CHR 0x00 # resto \<longrightarrow>
      ConValue_read zd (Suc fuel) so =
        bind_rec (ConObject_read zd fuel (so\<lparr>buf := resto\<rparr>)) (\<lambda>(obj, s'). Some (Returns (Object obj, s'))))
   \<and> (good ss \<and> buf ss = tag_String # CHR 0x00 # write_u64 (word_of_nat (length str')) @ str' @ rests
        \<and> length str' < 2 ^ 64 \<longrightarrow>
      ConValue_read zd (Suc fuel) ss = Some (Returns (String str', ss\<lparr>buf := rests\<rparr>)))
   \<and> ((\<forall>x. zd (zc x) = x) \<and> constructible v \<and> length (ConValue_write zc 0 v) < 2 ^ 64
        \<and> size v < fuel' \<longrightarrow>
      ConValue_read zd fuel' (istream_of (ConValue_write zc 0 v @ rest))
        = Some (Returns (v, istream_of rest)))"
proof -
  have rd_arr: "ConValue_read zd (Suc fuel) s =
        bind_rec (ConArray_read zd fuel (s\<lparr>buf := rest\<rparr>)) (\<lambda>(arr, s'). Some (Returns (Array arr, s')))"
    if "good s" "buf s = tag_Array # CHR 0x00 # rest" for s rest
  proof -
    have 1: "read_field (Suc 0) s = Returns ([tag_Array], s\<lparr>buf := CHR 0x00 # rest\<rparr>)"
      using that by (intro read_tag) simp_all
    have 2: "read_field (Suc 0) (s\<lparr>buf := CHR 0x00 # rest\<rparr>) = Returns ([CHR 0x00], s\<lparr>buf := rest\<rparr>)"
      using read_tag [of "s\<lparr>buf := CHR 0x00 # rest\<rparr>" "CHR 0x00" rest] that(1) by simp
    show ?thesis by (simp add: 1 2 tag_defs)
  qed
  have rd_obj: "ConValue_read zd (Suc fuel) s =
        bind_rec (ConObject_read zd fuel (s\<lparr>buf := rest\<rparr>)) (\<lambda>(obj, s'). Some (Returns (Object obj, s')))"
    if "good s" "buf s = tag_Object # CHR 0x00 # rest" for s rest
  proof -
    have 1: "read_field (Suc 0) s = Returns ([tag_Object], s\<lparr>buf := CHR 0x00 # rest\<rparr>)"
      using that by (intro read_tag) simp_all
    have 2: "read_field (Suc 0) (s\<lparr>buf := CHR 0x00 # rest\<rparr>) = Returns ([CHR 0x00], s\<lparr>buf := rest\<rparr>)"
      using read_tag [of "s\<lparr>buf := CHR 0x00 # rest\<rparr>" "CHR 0x00" rest] that(1) by simp
    show ?thesis by (simp add: 1 2 tag_defs)
  qed
  have rd_str: "ConValue_read zd (Suc fuel) s = Some (Returns (String str, s\<lparr>buf := rest\<rparr>))"
    if "good s" "buf s = tag_String # CHR 0x00 # write_u64 (word_of_nat (length str)) @ str @ rest"
      "length str < 2 ^ 64" for s rest str
  proof -
    let ?s1 = "s\<lparr>buf := CHR 0x00 # write_u64 (word_of_nat (length str)) @ str @ rest\<rparr>"
    let ?s2 = "s\<lparr>buf := write_u64 (word_of_nat (length str)) @ str @ rest\<rparr>"
    have 1: "read_field (Suc 0) s = Returns ([tag_String], ?s1)"
      using that by (intro read_tag) simp_all
    have 2: "read_field (Suc 0) ?s1 = Returns ([CHR 0x00], ?s2)"
      using read_tag [of ?s1 "CHR 0x00" "write_u64 (word_of_nat (length str)) @ str @ rest"] that(1) by simp
    have 3: "read_sized ?s2 = Returns (str, ?s2\<lparr>buf := rest\<rparr>)"
      using that(1,3) by (intro read_sized_frame) simp_all
    show ?thesis by (simp add: 1 2 3 read_String_def tag_defs)
  qed
  have self: "ConValue_read zd fuel (istream_of (ConValue_write zc 0 v @ rest))
        = Some (Returns (v, istream_of rest))"
    if "\<forall>x. zd (zc x) = x" "constructible v" "length (ConValue_write zc 0 v) < 2 ^ 64" "size v < fuel"
    for fuel
    using ConValue_read_write_root [of zd zc v fuel "istream_of (ConValue_write zc 0 v @ rest)" rest] that
    by simp
  show ?thesis
    using rd_arr rd_obj rd_str self by (simp add: frame_container_def frame_String_def)
qed

theorem framing_asymmetry_witness:
  "ConValue_write (\<lambda>x. x) 1 (Array [Null]) = tag_Array # CHR 0x00 # ConArray_write (\<lambda>x. x) 1 [Null]
   \<and> ConValue_write (\<lambda>x. x) 1 (Object [(''k'', Null)])
        = tag_Object # CHR 0x00 # ConObject_write (\<lambda>x. x) 1 [(''k'', Null)]
   \<and> ConValue_write (\<lambda>x. x) 1 (String ''hi'') = tag_String # CHR 0x00 # write_u64 2 @ ''hi''
   \<and> ConValue_read (\<lambda>x. x) (Suc 1) (istream_of (tag_Array # CHR 0x00 # write_u64 0))
        = Some (Returns (Array [], istream_of []))
   \<and> ConValue_read (\<lambda>x. x) (Suc 1) (istream_of (tag_Object # CHR 0x00 # write_u64 0))
        = Some (Returns (Object [], istream_of []))
   \<and> ConValue_read (\<lambda>x. x) (Suc 1) (istream_of (tag_String # CHR 0x00 # write_u64 2 @ ''hi'' @ ''!''))
        = Some (Returns (String ''hi'', istream_of ''!''))
   \<and> ConValue_read (\<lambda>x. x) 5 (istream_of (ConValue_write (\<lambda>x. x) 0 (Array [Null]) @ ''!''))
        = Some (Returns (Array [Null], istream_of ''!''))"
proof -
  have 1: "read_field 8 (istream_of (write_u64 0)) = Returns (write_u64 0, istream_of [])"
    using read_u64_field [of "istream_of (write_u64 0)" 0 "[]"] by simp
  show ?thesis
    using framing_asymmetry [of "\<lambda>x. x" 1 "[Null]" "[(''k'', Null)]" "''hi''"
      "istream_of (tag_Array # CHR 0x00 # write_u64 0)" "write_u64 0" "\<lambda>x. x" 1
      "istream_of (tag_Object # CHR 0x00 # write_u64 0)" "write_u64 0"
      "istream_of (tag_String # CHR 0x00 # write_u64 2 @ ''hi'' @ ''!'')" "''hi''" "''!''"
      "Array [Null]" 5 "''!''"]
    by (simp add: 1 COMPRESS_COMPARE_def COMPRESSION_LEVEL_MAX_def COMPRESSION_THRESHOLD_def
        constructible_def ConArray_write.simps ConObject_write.simps ConArray_read.simps
        ConObject_read.simps frame_container_def frame_String_def
        del: ConValue_read.simps)
qed


subsection \<open>Malformed streams\<close>





lemma bind_read_Returns:
  "bind_read m f = Some (Returns y) \<Longrightarrow> \<exists>x. m = Returns x \<and> f x = Some (Returns y)"
  by (cases m) simp_all

lemma bind_rec_Returns:
  "bind_rec m f = Some (Returns y) \<Longrightarrow> \<exists>x. m = Some (Returns x) \<and> f x = Some (Returns y)"
  by (cases m) (auto dest: bind_read_Returns)













section \<open>Properties of the text codec\<close>

subsection \<open>Stream primitives on explicit streams\<close>

lemma istream_get_simps:
  "istream_get \<lparr>buf = c # cs, eofbit = False, failbit = False\<rparr>
     = (Some c, \<lparr>buf = cs, eofbit = False, failbit = False\<rparr>)"
  "istream_get \<lparr>buf = [], eofbit = False, failbit = False\<rparr>
     = (None, \<lparr>buf = [], eofbit = True, failbit = True\<rparr>)"
  "istream_get \<lparr>buf = b, eofbit = True, failbit = f\<rparr> = (None, \<lparr>buf = b, eofbit = True, failbit = True\<rparr>)"
  "istream_get \<lparr>buf = b, eofbit = e, failbit = True\<rparr> = (None, \<lparr>buf = b, eofbit = e, failbit = True\<rparr>)"
  by (simp_all add: istream_get_def good_def)

lemma istream_putback_simps:
  "istream_putback c \<lparr>buf = b, eofbit = e, failbit = False\<rparr> = \<lparr>buf = c # b, eofbit = False, failbit = False\<rparr>"
  "istream_putback c \<lparr>buf = b, eofbit = e, failbit = True\<rparr> = \<lparr>buf = b, eofbit = False, failbit = True\<rparr>"
  by (simp_all add: istream_putback_def)

lemma eliminateWhitespace_simps:
  "eliminateWhitespace \<lparr>buf = c # cs, eofbit = False, failbit = False\<rparr>
     = (if is_blank c then eliminateWhitespace \<lparr>buf = cs, eofbit = False, failbit = False\<rparr>
        else \<lparr>buf = c # cs, eofbit = False, failbit = False\<rparr>)"
  "eliminateWhitespace \<lparr>buf = [], eofbit = False, failbit = False\<rparr>
     = \<lparr>buf = [], eofbit = True, failbit = True\<rparr>"
  "eliminateWhitespace \<lparr>buf = b, eofbit = True, failbit = f\<rparr> = \<lparr>buf = b, eofbit = True, failbit = True\<rparr>"
  "eliminateWhitespace \<lparr>buf = b, eofbit = e, failbit = True\<rparr> = \<lparr>buf = b, eofbit = e, failbit = True\<rparr>"
  by (subst eliminateWhitespace.simps; simp add: istream_get_simps istream_putback_simps)+

lemma sentry_skipws_simps:
  "sentry_skipws \<lparr>buf = c # cs, eofbit = False, failbit = False\<rparr>
     = (if isspace c then sentry_skipws \<lparr>buf = cs, eofbit = False, failbit = False\<rparr>
        else (True, \<lparr>buf = c # cs, eofbit = False, failbit = False\<rparr>))"
  "sentry_skipws \<lparr>buf = [], eofbit = False, failbit = False\<rparr>
     = (False, \<lparr>buf = [], eofbit = True, failbit = True\<rparr>)"
  "sentry_skipws \<lparr>buf = b, eofbit = True, failbit = f\<rparr> = (False, \<lparr>buf = b, eofbit = True, failbit = True\<rparr>)"
  "sentry_skipws \<lparr>buf = b, eofbit = e, failbit = True\<rparr> = (False, \<lparr>buf = b, eofbit = e, failbit = True\<rparr>)"
  by (auto simp: sentry_skipws_def good_def split: list.split simp flip: dropWhile_eq_Nil_conv)

lemma istream_extract_char_simps:
  "istream_extract_char \<lparr>buf = c # cs, eofbit = False, failbit = False\<rparr>
     = (if isspace c then istream_extract_char \<lparr>buf = cs, eofbit = False, failbit = False\<rparr>
        else (Some c, \<lparr>buf = cs, eofbit = False, failbit = False\<rparr>))"
  "istream_extract_char \<lparr>buf = [], eofbit = False, failbit = False\<rparr>
     = (None, \<lparr>buf = [], eofbit = True, failbit = True\<rparr>)"
  "istream_extract_char \<lparr>buf = b, eofbit = True, failbit = f\<rparr> = (None, \<lparr>buf = b, eofbit = True, failbit = True\<rparr>)"
  "istream_extract_char \<lparr>buf = b, eofbit = e, failbit = True\<rparr> = (None, \<lparr>buf = b, eofbit = e, failbit = True\<rparr>)"
  by (simp_all add: istream_extract_char_def sentry_skipws_simps)

lemma istream_extract_double_simps:
  "istream_extract_double \<lparr>buf = c # cs, eofbit = False, failbit = False\<rparr>
     = (if isspace c then istream_extract_double \<lparr>buf = cs, eofbit = False, failbit = False\<rparr>
        else (case extract_float (c # cs) of (xtrc, rest) \<Rightarrow>
              case convert_to_v xtrc of (v, err) \<Rightarrow>
                (Some v, \<lparr>buf = rest, eofbit = (rest = []), failbit = err\<rparr>)))"
  "istream_extract_double \<lparr>buf = [], eofbit = False, failbit = False\<rparr>
     = (None, \<lparr>buf = [], eofbit = True, failbit = True\<rparr>)"
  "istream_extract_double \<lparr>buf = b, eofbit = True, failbit = f\<rparr> = (None, \<lparr>buf = b, eofbit = True, failbit = True\<rparr>)"
  "istream_extract_double \<lparr>buf = b, eofbit = e, failbit = True\<rparr> = (None, \<lparr>buf = b, eofbit = e, failbit = True\<rparr>)"
  by (simp_all add: istream_extract_double_def sentry_skipws_simps)

lemma getline_simps:
  "getline d \<lparr>buf = c # cs, eofbit = False, failbit = False\<rparr>
     = (if c = d then ([], \<lparr>buf = cs, eofbit = False, failbit = False\<rparr>)
        else (case getline d \<lparr>buf = cs, eofbit = False, failbit = False\<rparr> of
                (str, s') \<Rightarrow> (c # str, s'\<lparr>failbit := False\<rparr>)))"
  "getline d \<lparr>buf = [], eofbit = False, failbit = False\<rparr>
     = ([], \<lparr>buf = [], eofbit = True, failbit = True\<rparr>)"
  "getline d \<lparr>buf = b, eofbit = True, failbit = f\<rparr> = ([], \<lparr>buf = b, eofbit = True, failbit = True\<rparr>)"
  "getline d \<lparr>buf = b, eofbit = e, failbit = True\<rparr> = ([], \<lparr>buf = b, eofbit = e, failbit = True\<rparr>)"
  by (auto simp: getline_def good_def Let_def split: if_splits)

lemma set_failbit_simp [simp]:
  "set_failbit \<lparr>buf = b, eofbit = e, failbit = f\<rparr> = \<lparr>buf = b, eofbit = e, failbit = True\<rparr>"
  by (simp add: set_failbit_def)

lemmas stream_simps = istream_get_simps istream_putback_simps eliminateWhitespace_simps
  istream_extract_char_simps istream_extract_double_simps getline_simps
  is_blank_def isspace_def istream_of_def

lemmas fuel_numeral =
  parse_ConValue.simps(2) [of "pred_numeral k", folded numeral_eq_Suc]
  parse_ConArray_loop.simps(2) [of "pred_numeral k", folded numeral_eq_Suc]
  parse_ConObject_loop.simps(2) [of "pred_numeral k", folded numeral_eq_Suc]
  string_loop.simps(2) [of "pred_numeral k", folded numeral_eq_Suc]
  get_n.simps(2) [of "pred_numeral k", folded numeral_eq_Suc]
  for k

lemmas number_eval = extract_float_def is_digit_def less_eq_char_def convert_to_v_def digit_val_def
  sign_mask_def double_infinity_def double_max_def round_to_double_def floor_log2_def
  bit_length.simps round_half_even_def number_collapse_def double_finite_def double_exponent_def
  double_trunc_def double_sign_def double_scale_def double_significand_def double_fraction_def
  double_integral_def Let_def


lemma char_of_eq: "(char_of (n::nat) = c) = (n mod 256 = of_char c)"
  using of_char_eq_iff [of "char_of n" c, where ?'a = nat] by (simp del: of_char_eq_iff)

lemmas print_eval = print_int64_def show_nat.simps digit_char_def char_of_eq

lemmas lexer_eval = extract_float_def is_digit_def less_eq_char_def

text \<open>The tokens of the examples.\<close>

lemma extract_float_examples:
  "extract_float (CHR ''1'' # CHR '','' # r) = (''1'', CHR '','' # r)"
  "extract_float (CHR ''1'' # CHR ''}'' # r) = (''1'', CHR ''}'' # r)"
  "extract_float (CHR ''2'' # CHR ''}'' # r) = (''2'', CHR ''}'' # r)"
  "extract_float ''42'' = (''42'', [])"
  "extract_float ''42.5'' = (''42.5'', [])"
  "extract_float ''42.0'' = (''42.0'', [])"
  "extract_float ''1e19'' = (''1e19'', [])"
  "extract_float ''9007199254740993'' = (''9007199254740993'', [])"
  by (simp_all add: lexer_eval)

lemma convert_to_v_examples:
  "convert_to_v ''1'' = (0x3FF0000000000000, False)"
  "convert_to_v ''2'' = (0x4000000000000000, False)"
  "convert_to_v ''42'' = (0x4045000000000000, False)"
  "convert_to_v ''42.5'' = (0x4045400000000000, False)"
  "convert_to_v ''42.0'' = (0x4045000000000000, False)"
  "convert_to_v ''1e19'' = (0x43E158E460913D00, False)"
  "convert_to_v ''9007199254740993'' = (0x4340000000000000, False)"
  by (simp_all add: number_eval)

lemma number_collapse_examples:
  "number_collapse 0x3FF0000000000000 = Returns (Integer 1)"
  "number_collapse 0x4000000000000000 = Returns (Integer 2)"
  "number_collapse 0x4045000000000000 = Returns (Integer 42)"
  "number_collapse 0x4045400000000000 = Returns (Float 0x4045400000000000)"
  "number_collapse 0x43E158E460913D00 = Indeterminate"
  "number_collapse 0x4340000000000000 = Returns (Integer 9007199254740992)"
  by (simp_all add: number_eval)

lemmas parse_eval = fuel_numeral stream_simps extract_float_examples convert_to_v_examples
  number_collapse_examples


subsection \<open>The null literal\<close>

text \<open>
  C8. Null literal. The \<open>n\<close> branch of the parser sets the type and extracts nothing:
  on any input that starts with \<open>n\<close> the value is Null and the stream is as it was, the
  \<open>n\<close> included. So \<open>nxyz\<close> yields Null with all four characters left unread, and
  \<open>[null]\<close> fails: the Array loop finds the \<open>n\<close> where it wants a comma or a bracket.
  The branch for \<open>true\<close> and \<open>false\<close> does use its characters up: \<open>[true]\<close>
  parses.
\<close>

theorem null_literal_not_consumed:
  \<open>parse_ConValue (Suc fuel) (istream_of (CHR ''n'' # rest)) = Some (Returns (Null, istream_of (CHR ''n'' # rest)))
   \<and> parse_ConValue 10 (istream_of ''nxyz'') = Some (Returns (Null, istream_of ''nxyz''))
   \<and> parse_ConValue 10 (istream_of ''[null]'')
       = Some (Returns (Array [Null], \<lparr>buf = ''ull]'', eofbit = False, failbit = True\<rparr>))
   \<and> parse_ConValue 10 (istream_of ''[true]'')
       = Some (Returns (Array [Boolean True], istream_of []))\<close>
  by (simp add: parse_eval)


subsection \<open>Failure of a parse\<close>



text \<open>
  Nor does every parse return: the loop for a string value has no test for the end of
  the input, and on an unterminated string no amount of fuel is enough.
\<close>

lemma string_loop_stuck:
  "c \<noteq> CHR 0x22 \<Longrightarrow> string_loop fuel c str \<lparr>buf = b, eofbit = e, failbit = True\<rparr> = None"
  by (induction fuel arbitrary: str) (simp_all add: istream_get_simps)

lemma parse_unterminated_string_diverges:
  \<open>parse_ConValue fuel (istream_of (CHR 0x22 # CHR ''a'' # [])) = None\<close>
proof (cases fuel)
  case 0
  then show ?thesis by simp
next
  case (Suc f)
  show ?thesis
  proof (cases f)
    case 0
    then show ?thesis using Suc by (simp add: stream_simps)
  next
    case (Suc g)
    show ?thesis
    proof (cases g)
      case 0
      then show ?thesis using Suc \<open>fuel = Suc f\<close> by (simp add: stream_simps)
    next
      case (Suc h)
      then show ?thesis using \<open>f = Suc g\<close> \<open>fuel = Suc f\<close>
        by (simp add: stream_simps string_loop_stuck)
    qed
  qed
qed




subsection \<open>Number collapse\<close>

lemma double_fraction_less: "double_fraction d < 2 ^ 52"
  by (simp add: double_fraction_def)

lemma double_significand_less: "double_significand d < 2 ^ 53"
  using double_fraction_less [of d] by (simp add: double_significand_def)

lemma double_value_nonneg_scale:
  assumes "double_scale d \<ge> 0"
  shows "double_value d = of_int (double_trunc d)"
  using assms by (simp add: double_value_def double_trunc_def)

lemma double_small:
  assumes "double_scale d < 0"
  shows "\<bar>double_value d\<bar> < 2 ^ 53" and "\<bar>double_trunc d\<bar> < 2 ^ 53"
proof -
  let ?m = "double_significand d" and ?j = "nat (- double_scale d)"
  have m: "?m < 2 ^ 53" by (rule double_significand_less)
  have "(of_nat ?m :: rat) / 2 ^ ?j \<le> of_nat ?m"
    by (simp add: divide_le_eq_1_pos field_simps)
       (metis mult_left_mono of_nat_0_le_iff one_le_numeral one_le_power mult.right_neutral)
  also have "\<dots> < 2 ^ 53" using m by (metis of_nat_less_iff of_nat_numeral of_nat_power)
  finally show "\<bar>double_value d\<bar> < 2 ^ 53"
    using assms by (simp add: double_value_def abs_mult)
  have "?m div 2 ^ ?j \<le> ?m" by simp
  then have "?m div 2 ^ ?j < 2 ^ 53" using m by (rule le_less_trans)
  then have "int (?m div 2 ^ ?j) < int (2 ^ 53)" by (simp only: of_nat_less_iff)
  then have "int (?m div 2 ^ ?j) < 2 ^ 53" by simp
  then show "\<bar>double_trunc d\<bar> < 2 ^ 53"
    using assms by (simp add: double_trunc_def abs_mult)
qed

lemma of_nat_div_pow2_Ints:
  "(of_nat m :: rat) / 2 ^ j \<in> \<int> \<longleftrightarrow> 2 ^ j dvd m"
proof
  assume "2 ^ j dvd m"
  then obtain q where "m = 2 ^ j * q" ..
  then show "(of_nat m :: rat) / 2 ^ j \<in> \<int>" by simp
next
  assume "(of_nat m :: rat) / 2 ^ j \<in> \<int>"
  then obtain z where z: "(of_nat m :: rat) / 2 ^ j = of_int z" by (auto elim: Ints_cases)
  then have "(of_int (int m) :: rat) = of_int (z * 2 ^ j)" by (simp add: field_simps)
  then have "int m = z * 2 ^ j" by (simp only: of_int_eq_iff)
  then have "(2 ^ j :: int) dvd int m" by simp
  then show "2 ^ j dvd m" by (metis of_nat_dvd_iff of_nat_numeral of_nat_power)
qed

lemma double_integral_iff: "double_integral d \<longleftrightarrow> double_value d \<in> \<int>"
proof (cases "double_scale d \<ge> 0")
  case True
  then show ?thesis by (simp add: double_integral_def double_value_nonneg_scale)
next
  case False
  have "double_value d \<in> \<int> \<longleftrightarrow> of_nat (double_significand d) / 2 ^ nat (- double_scale d) \<in> (\<int> :: rat set)"
    using False by (auto simp: double_value_def)
  then show ?thesis
    using False by (simp add: double_integral_def of_nat_div_pow2_Ints dvd_eq_mod_eq_0)
qed

lemma double_integral_value:
  assumes "double_integral d"
  shows "double_value d = of_int (double_trunc d)"
proof (cases "double_scale d \<ge> 0")
  case True
  then show ?thesis by (rule double_value_nonneg_scale)
next
  case False
  then have "2 ^ nat (- double_scale d) dvd double_significand d"
    using assms by (simp add: double_integral_def dvd_eq_mod_eq_0)
  then obtain q where q: "double_significand d = 2 ^ nat (- double_scale d) * q" ..
  have "double_significand d div 2 ^ nat (- double_scale d) = q"
    by (subst q) simp
  moreover have "(of_nat (double_significand d) :: rat) / 2 ^ nat (- double_scale d) = of_nat q"
    by (subst q) simp
  ultimately show ?thesis
    using False by (simp add: double_value_def double_trunc_def)
qed

lemma double_trunc_range:
  "double_trunc d < - (2 ^ 63) \<or> 2 ^ 63 \<le> double_trunc d
     \<longleftrightarrow> double_value d < - (2 ^ 63) \<or> 2 ^ 63 \<le> double_value d"
proof (cases "double_scale d \<ge> 0")
  case True
  have "double_value d = of_int (double_trunc d)" using True by (rule double_value_nonneg_scale)
  moreover have "(of_int (double_trunc d) :: rat) < - (2 ^ 63) \<longleftrightarrow> double_trunc d < - (2 ^ 63)"
    by (metis of_int_less_iff of_int_minus of_int_numeral of_int_power)
  moreover have "(2 ^ 63 :: rat) \<le> of_int (double_trunc d) \<longleftrightarrow> 2 ^ 63 \<le> double_trunc d"
    by (metis of_int_le_iff of_int_numeral of_int_power)
  ultimately show ?thesis by simp
next
  case False
  then have "\<bar>double_value d\<bar> < 2 ^ 53" "\<bar>double_trunc d\<bar> < 2 ^ 53"
    using double_small [of d] by simp_all
  then show ?thesis by (auto simp: abs_less_iff)
qed


lemma double_value_examples:
  "double_value 0x4045000000000000 = 42"
  "double_value 0x4045400000000000 = 85 / 2"
  "double_value 0x43E158E460913D00 = 10000000000000000000"
  by (simp_all add: double_value_def number_eval)

text \<open>
  C9 as stated fails: the token \<open>1e19\<close> is read as the double \<open>10 ^ 19\<close>, which is an
  integer, and it is not stored as an Integer: it does not fit \<^verbatim>\<open>int64_t\<close>, and the
  conversion in \<^verbatim>\<open>d == (int64_t)d\<close> is undefined.
\<close>

theorem number_collapse_large_counterexample:
  \<open>convert_to_v ''1e19'' = (0x43E158E460913D00, False)
   \<and> double_value 0x43E158E460913D00 = 10000000000000000000
   \<and> parse_ConValue 10 (istream_of ''1e19'') = Some Indeterminate\<close>
  by (simp add: parse_eval double_value_examples)

text \<open>
  C9, amended. A token that starts with none of \<open>n t f " [ {\<close> is read as a double by
  \<^verbatim>\<open>is >> d\<close>. A double from \<open>- 2 ^ 63\<close> up to, not including, \<open>2 ^ 63\<close> is stored as an
  Integer of the same value exactly when its value is an integer, and as a Float
  otherwise; outside that range the conversion to \<^verbatim>\<open>int64_t\<close> has no defined result.
  \<open>42\<close> and \<open>42.0\<close> give Integer 42, and \<open>42.5\<close> gives the Float \<open>85 / 2\<close>.
\<close>

theorem number_collapse_rule:
  \<open>(double_finite d \<and> - (2 ^ 63) \<le> double_value d \<and> double_value d < 2 ^ 63 \<longrightarrow>
      (double_value d \<in> \<int> \<longrightarrow>
         number_collapse d = Returns (Integer (word_of_int \<lfloor>double_value d\<rfloor>))
         \<and> sint (word_of_int \<lfloor>double_value d\<rfloor> :: 64 word) = \<lfloor>double_value d\<rfloor>)
      \<and> (double_value d \<notin> \<int> \<longrightarrow> number_collapse d = Returns (Float d)))
   \<and> (double_value d' < - (2 ^ 63) \<or> 2 ^ 63 \<le> double_value d' \<longrightarrow> number_collapse d' = Indeterminate)
   \<and> (c \<notin> set ''ntf"[{'' \<and> \<not> is_blank c \<longrightarrow>
        parse_ConValue (Suc fuel) (istream_of (c # cs)) =
          (case istream_extract_double (istream_of (c # cs)) of
             (None, s) \<Rightarrow> Some Indeterminate
           | (Some x, s) \<Rightarrow> bind_read (number_collapse x) (\<lambda>v. Some (Returns (v, s)))))
   \<and> parse_ConValue 10 (istream_of ''42'')
        = Some (Returns (Integer 42, \<lparr>buf = [], eofbit = True, failbit = False\<rparr>))
   \<and> parse_ConValue 10 (istream_of ''42.5'')
        = Some (Returns (Float 0x4045400000000000, \<lparr>buf = [], eofbit = True, failbit = False\<rparr>))
   \<and> double_value 0x4045400000000000 = 85 / 2
   \<and> parse_ConValue 10 (istream_of ''42.0'')
        = Some (Returns (Integer 42, \<lparr>buf = [], eofbit = True, failbit = False\<rparr>))\<close>
proof -
  have inrange: "number_collapse d = Returns (Integer (word_of_int \<lfloor>double_value d\<rfloor>))
         \<and> sint (word_of_int \<lfloor>double_value d\<rfloor> :: 64 word) = \<lfloor>double_value d\<rfloor>"
    if "double_finite d" "- (2 ^ 63) \<le> double_value d" "double_value d < 2 ^ 63" "double_value d \<in> \<int>"
  proof -
    have int: "double_integral d" using that(4) by (simp add: double_integral_iff)
    then have v: "double_value d = of_int (double_trunc d)" by (rule double_integral_value)
    have r: "\<not> (double_trunc d < - (2 ^ 63) \<or> 2 ^ 63 \<le> double_trunc d)"
      using that(2,3) double_trunc_range [of d] by simp
    have "sint (word_of_int (double_trunc d) :: 64 word) = double_trunc d"
      using r signed_take_bit_int_eq_self [of 63 "double_trunc d"] by (simp add: sint_sbintrunc')
    then show ?thesis
      using that(1) int r by (simp add: number_collapse_def v)
  qed
  have frac: "number_collapse d = Returns (Float d)"
    if "double_finite d" "- (2 ^ 63) \<le> double_value d" "double_value d < 2 ^ 63" "double_value d \<notin> \<int>"
  proof -
    have "\<not> double_integral d" using that(4) by (simp add: double_integral_iff)
    moreover have "\<not> (double_trunc d < - (2 ^ 63) \<or> 2 ^ 63 \<le> double_trunc d)"
      using that(2,3) double_trunc_range [of d] by simp
    ultimately show ?thesis using that(1) by (simp add: number_collapse_def)
  qed
  have out: "number_collapse d' = Indeterminate"
    if "double_value d' < - (2 ^ 63) \<or> 2 ^ 63 \<le> double_value d'"
  proof -
    have "double_trunc d' < - (2 ^ 63) \<or> 2 ^ 63 \<le> double_trunc d'"
      using that double_trunc_range [of d'] by simp
    then show ?thesis by (auto simp: number_collapse_def)
  qed
  have branch: "parse_ConValue (Suc fuel) (istream_of (c # cs)) =
          (case istream_extract_double (istream_of (c # cs)) of
             (None, s) \<Rightarrow> Some Indeterminate
           | (Some x, s) \<Rightarrow> bind_read (number_collapse x) (\<lambda>v. Some (Returns (v, s))))"
    if "c \<notin> set ''ntf\"[{''" "\<not> is_blank c"
    using that
    by (simp add: istream_of_def eliminateWhitespace_simps istream_get_simps istream_putback_simps)
  show ?thesis
    using inrange frac out branch by (simp add: parse_eval double_value_examples)
qed


theorem number_collapse_rule_witness:
  \<open>number_collapse 0x4045000000000000 = Returns (Integer 42)
   \<and> number_collapse 0x4045400000000000 = Returns (Float 0x4045400000000000)
   \<and> number_collapse 0x43E158E460913D00 = Indeterminate
   \<and> parse_ConValue (Suc 0) (istream_of ''7'') =
          (case istream_extract_double (istream_of ''7'') of
             (None, s) \<Rightarrow> Some Indeterminate
           | (Some x, s) \<Rightarrow> bind_read (number_collapse x) (\<lambda>v. Some (Returns (v, s))))\<close>
  using number_collapse_rule [of "0x4045000000000000" "0x43E158E460913D00" "CHR ''7''" 0 "[]"]
    number_collapse_rule [of "0x4045400000000000" "0x43E158E460913D00" "CHR ''7''" 0 "[]"]
  by (simp add: double_value_examples is_blank_def double_finite_def double_exponent_def
      flip: double_integral_iff)


section \<open>Object keys\<close>

subsection \<open>Assignment to a key\<close>

lemma set_map_assign: "set (map_assign k v m) \<subseteq> insert (k, v) (set m)"
  by (induction m) (auto split: if_splits)

lemma keys_map_assign: "set (map fst (map_assign k v m)) = insert k (set (map fst m))"
proof (induction m)
  case Nil
  then show ?case by simp
next
  case (Cons a m)
  obtain k' v' where a: "a = (k', v')" by (cases a)
  have "set (map fst (map_assign k v (a # m))) =
      (if k < k' then insert k (insert k' (set (map fst m)))
       else if k = k' then insert k (set (map fst m))
       else insert k' (set (map fst (map_assign k v m))))"
    by (simp add: a)
  also have "\<dots> = insert k (set (map fst (a # m)))"
    unfolding Cons.IH by (auto simp: a)
  finally show ?case .
qed

lemma sorted_map_assign:
  "sorted_wrt (<) (map fst m) \<Longrightarrow> sorted_wrt (<) (map fst (map_assign k v m))"
proof (induction m)
  case Nil
  then show ?case by simp
next
  case (Cons a m)
  obtain k' v' where a: "a = (k', v')" by (cases a)
  show ?case
  proof (cases "k < k'")
    case True
    then show ?thesis using Cons.prems a by (auto intro: less_trans)
  next
    case False
    show ?thesis
    proof (cases "k = k'")
      case True
      then show ?thesis using Cons.prems a by simp
    next
      case ne: False
      then have "k' < k" using False by simp
      moreover have "\<forall>x \<in> set (map fst (map_assign k v m)). k' < x"
        using Cons.prems a \<open>k' < k\<close> by (auto simp: keys_map_assign simp del: set_map)
      ultimately show ?thesis using Cons a False ne by simp
    qed
  qed
qed

lemma keys_sorted_map_assign:
  "keys_sorted (Object m) \<Longrightarrow> keys_sorted v \<Longrightarrow> keys_sorted (Object (map_assign k v m))"
  using set_map_assign [of k v m] by (auto simp: sorted_map_assign)

lemma map_of_map_assign:
  "sorted_wrt (<) (map fst m) \<Longrightarrow> map_of (map_assign k v m) = (map_of m)(k \<mapsto> v)"
proof (induction m)
  case Nil
  then show ?case by simp
next
  case (Cons a m)
  obtain k' v' where a: "a = (k', v')" by (cases a)
  show ?case using Cons a by (auto simp: fun_upd_twist)
qed

lemma map_assign_commute:
  "sorted_wrt (<) (map fst m) \<Longrightarrow> k \<noteq> k'
     \<Longrightarrow> map_assign k v (map_assign k' v' m) = map_assign k' v' (map_assign k v m)"
proof (induction m)
  case Nil
  then show ?case by (auto simp: not_less)
next
  case (Cons a m)
  obtain k0 v0 where a: "a = (k0, v0)" by (cases a)
  show ?case using Cons a by (auto simp: not_less dest: less_trans)
qed


subsection \<open>Objects stay sorted\<close>

text \<open>Whatever the parser and the decoder return has sorted Objects, at every depth.\<close>

lemma number_collapse_keys_sorted: "number_collapse d = Returns v \<Longrightarrow> keys_sorted v"
  by (auto simp: number_collapse_def split: if_splits)

lemma parse_keys_sorted_all:
  "(\<forall>s v s'. parse_ConValue fuel s = Some (Returns (v, s')) \<longrightarrow> keys_sorted v)
   \<and> (\<forall>c arr s r s'. parse_ConArray_loop fuel c arr s = Some (Returns (r, s'))
          \<longrightarrow> keys_sorted (Array arr) \<longrightarrow> keys_sorted (Array r))
   \<and> (\<forall>c obj s r s'. parse_ConObject_loop fuel c obj s = Some (Returns (r, s'))
          \<longrightarrow> keys_sorted (Object obj) \<longrightarrow> keys_sorted (Object r))"
proof (induction fuel)
  case 0
  then show ?case by simp
next
  case (Suc f)
  have val: "keys_sorted v" if "parse_ConValue f s = Some (Returns (v, s'))" for s v s'
    using Suc that by blast
  have loopA: "keys_sorted (Array r)"
    if "parse_ConArray_loop f c arr s = Some (Returns (r, s'))" "keys_sorted (Array arr)" for c arr s r s'
    using Suc that by blast
  have loopO: "keys_sorted (Object r)"
    if "parse_ConObject_loop f c obj s = Some (Returns (r, s'))" "keys_sorted (Object obj)" for c obj s r s'
    using Suc that by blast
  have arr: "keys_sorted (Array r)"
    if "parse_ConArray f arr s = Some (Returns (r, s'))" "keys_sorted (Array arr)" for arr s r s'
    using that loopA
    by (auto simp: Let_def simp del: keys_sorted.simps split: prod.splits option.splits if_splits)
  have obj: "keys_sorted (Object r)"
    if "parse_ConObject f obj s = Some (Returns (r, s'))" "keys_sorted (Object obj)" for obj s r s'
    using that loopO
    by (auto simp: Let_def simp del: keys_sorted.simps split: prod.splits option.splits if_splits)
  have 1: "keys_sorted v" if r: "parse_ConValue (Suc f) s = Some (Returns (v, s'))" for s v s'
  proof -
    obtain c s1 where g: "istream_get (eliminateWhitespace s) = (Some c, s1)"
      using r by (auto split: prod.splits option.splits)
    let ?s2 = "istream_putback c s1"
    consider (lit) "c = CHR ''n'' \<or> c = CHR ''t'' \<or> c = CHR ''f''" | (str) "c = CHR 0x22"
      | (arr) "c = CHR ''[''" | (obj) "c = CHR ''{''"
      | (num) "c \<notin> set ''ntf\"[{''"
      by auto
    then show ?thesis
    proof cases
      case lit
      then show ?thesis using r g by (auto simp: Let_def)
    next
      case str
      then show ?thesis using r g by (auto simp: Let_def split: prod.splits option.splits)
    next
      case arr
      then have "bind_rec (parse_ConArray f [] (eliminateWhitespace ?s2))
                   (\<lambda>(arr, s3). Some (Returns (Array arr, s3))) = Some (Returns (v, s'))"
        using r g by (simp add: Let_def)
      then obtain a where "parse_ConArray f [] (eliminateWhitespace ?s2) = Some (Returns (a, s'))" "v = Array a"
        by (auto dest!: bind_rec_Returns)
      then show ?thesis using \<open>\<And>arr s r s'. \<lbrakk>parse_ConArray f arr s = Some (Returns (r, s')); keys_sorted (Array arr)\<rbrakk> \<Longrightarrow> keys_sorted (Array r)\<close> [of "[]"]
        by simp
    next
      case obj
      then have "bind_rec (parse_ConObject f [] (eliminateWhitespace ?s2))
                   (\<lambda>(obj, s3). Some (Returns (Object obj, s3))) = Some (Returns (v, s'))"
        using r g by (simp add: Let_def)
      then obtain a where "parse_ConObject f [] (eliminateWhitespace ?s2) = Some (Returns (a, s'))" "v = Object a"
        by (auto dest!: bind_rec_Returns)
      then show ?thesis using \<open>\<And>obj s r s'. \<lbrakk>parse_ConObject f obj s = Some (Returns (r, s')); keys_sorted (Object obj)\<rbrakk> \<Longrightarrow> keys_sorted (Object r)\<close> [of "[]"]
        by simp
    next
      case num
      then show ?thesis using r g
        by (auto simp: Let_def split: prod.splits option.splits
            dest!: bind_read_Returns number_collapse_keys_sorted)
    qed
  qed
  have 2: "keys_sorted (Array r)"
    if r: "parse_ConArray_loop (Suc f) c arr s = Some (Returns (r, s'))" and a: "keys_sorted (Array arr)"
    for c arr s r s'
  proof -
    obtain v s1 where v: "parse_ConValue f (eliminateWhitespace s) = Some (Returns (v, s1))"
      using r by (auto dest!: bind_rec_Returns)
    have a': "keys_sorted (Array (arr @ [v]))" using a val [OF v] by simp
    show ?thesis
      using r v a' loopA [of _ "arr @ [v]"]
      by (auto simp: Let_def simp del: keys_sorted.simps split: prod.splits option.splits if_splits)
  qed
  have 3: "keys_sorted (Object r)"
    if r: "parse_ConObject_loop (Suc f) c obj s = Some (Returns (r, s'))" and a: "keys_sorted (Object obj)"
    for c obj s r s'
  proof -
    obtain r1 s1 where e1: "istream_extract_char (eliminateWhitespace s) = (r1, s1)"
      by (cases "istream_extract_char (eliminateWhitespace s)")
    define c1 where "c1 = (case r1 of None \<Rightarrow> c | Some x \<Rightarrow> x)"
    obtain key s2 where gl: "getline (CHR 0x22) s1 = (key, s2)"
      by (cases "getline (CHR 0x22) s1")
    obtain r2 s3 where e2: "istream_extract_char (eliminateWhitespace s2) = (r2, s3)"
      by (cases "istream_extract_char (eliminateWhitespace s2)")
    define c2 where "c2 = (case r2 of None \<Rightarrow> c1 | Some x \<Rightarrow> x)"
    show ?thesis
    proof (cases "c1 \<noteq> CHR 0x22 \<or> c2 \<noteq> CHR '':''")
      case True
      then have "r = obj" using r e1 gl e2 unfolding c1_def c2_def by (auto simp: Let_def split: if_splits)
      then show ?thesis using a by simp
    next
      case False
      then have "bind_rec (parse_ConValue f (eliminateWhitespace s3)) (\<lambda>(v, s4).
                       if failbit s4 then Some (Returns (obj, s4))
                       else
                         (case istream_extract_char (eliminateWhitespace s4) of (r3, s5) \<Rightarrow>
                            let c3 = (case r3 of None \<Rightarrow> c2 | Some x \<Rightarrow> x)
                            in if c3 = CHR ''}'' then Some (Returns (map_assign key v obj, s5))
                               else if c3 \<noteq> CHR '','' then
                                 Some (Returns (map_assign key v obj, set_failbit s5))
                               else parse_ConObject_loop f c3 (map_assign key v obj) s5))
                = Some (Returns (r, s'))"
        using r e1 gl e2 unfolding c1_def c2_def by (simp add: Let_def)
      then obtain v s4 where v: "parse_ConValue f (eliminateWhitespace s3) = Some (Returns (v, s4))"
        and k: "(if failbit s4 then Some (Returns (obj, s4))
                       else
                         (case istream_extract_char (eliminateWhitespace s4) of (r3, s5) \<Rightarrow>
                            let c3 = (case r3 of None \<Rightarrow> c2 | Some x \<Rightarrow> x)
                            in if c3 = CHR ''}'' then Some (Returns (map_assign key v obj, s5))
                               else if c3 \<noteq> CHR '','' then
                                 Some (Returns (map_assign key v obj, set_failbit s5))
                               else parse_ConObject_loop f c3 (map_assign key v obj) s5))
                = Some (Returns (r, s'))"
        by (auto dest!: bind_rec_Returns)
      have m: "keys_sorted (Object (map_assign key v obj))"
        using a val [OF v] by (rule keys_sorted_map_assign)
      show ?thesis
        using k a m loopO [of _ "map_assign key v obj"]
        by (auto simp: Let_def simp del: keys_sorted.simps split: prod.splits if_splits)
    qed
  qed
  show ?case using 1 2 3 by blast
qed


lemma ConArray_read_loop_keys_sorted:
  assumes val: "\<And>s v s'. ConValue_read zd fuel s = Some (Returns (v, s')) \<Longrightarrow> keys_sorted v"
  shows "ConArray_read_loop zd fuel n arr s = Some (Returns (r, s'))
           \<Longrightarrow> keys_sorted (Array arr) \<Longrightarrow> keys_sorted (Array r)"
proof (induction n arbitrary: arr s)
  case 0
  then show ?case by simp
next
  case (Suc n)
  from Suc.prems(1) obtain v s1 where v: "ConValue_read zd fuel s = Some (Returns (v, s1))"
    and k: "ConArray_read_loop zd fuel n (arr @ [v]) s1 = Some (Returns (r, s'))"
    by (auto dest!: bind_rec_Returns)
  have "keys_sorted (Array (arr @ [v]))" using Suc.prems(2) val [OF v] by simp
  then show ?case using Suc.IH [OF k] by simp
qed

lemma ConObject_read_loop_keys_sorted:
  assumes val: "\<And>s v s'. ConValue_read zd fuel s = Some (Returns (v, s')) \<Longrightarrow> keys_sorted v"
  shows "ConObject_read_loop zd fuel n obj s = Some (Returns (r, s'))
           \<Longrightarrow> keys_sorted (Object obj) \<Longrightarrow> keys_sorted (Object r)"
proof (induction n arbitrary: obj s)
  case 0
  then show ?case by simp
next
  case (Suc n)
  from Suc.prems(1) obtain key v s2 s3 where v: "ConValue_read zd fuel s2 = Some (Returns (v, s3))"
    and k: "ConObject_read_loop zd fuel n (map_assign key v obj) s3 = Some (Returns (r, s'))"
    by (auto dest!: bind_rec_Returns bind_read_Returns)
  have "keys_sorted (Object (map_assign key v obj))"
    using Suc.prems(2) val [OF v] by (rule keys_sorted_map_assign)
  then show ?case using Suc.IH [OF k] by simp
qed

lemma ConValue_read_keys_sorted:
  "ConValue_read zd fuel s = Some (Returns (v, s')) \<Longrightarrow> keys_sorted v"
proof (induction fuel arbitrary: s v s')
  case 0
  then show ?case by simp
next
  case (Suc f)
  have e: "keys_sorted (Array [])" "keys_sorted (Object [])" by simp_all
  have arr: "keys_sorted (Array r)" if "ConArray_read zd f s = Some (Returns (r, s'))" for s r s'
    using that e ConArray_read_loop_keys_sorted [of zd f _ "[]"] Suc.IH
    by (auto simp: ConArray_read.simps simp del: keys_sorted.simps dest!: bind_read_Returns)
  have obj: "keys_sorted (Object r)" if "ConObject_read zd f s = Some (Returns (r, s'))" for s r s'
    using that e ConObject_read_loop_keys_sorted [of zd f _ "[]"] Suc.IH
    by (auto simp: ConObject_read.simps simp del: keys_sorted.simps dest!: bind_read_Returns)
  show ?case
    using Suc.prems arr obj
    by (auto simp: read_Boolean_def read_Integer_def read_Float_def read_String_def
          simp del: keys_sorted.simps
          split: if_splits dest!: bind_read_Returns bind_rec_Returns)
       (auto simp: bind_read_def split: outcome.splits)
qed


section \<open>Text round trip\<close>

subsection \<open>Decimal digits\<close>

lemma of_char_digit_char: "n < 10 \<Longrightarrow> (of_char (digit_char n) :: nat) = 48 + n"
  by (simp add: digit_char_def)

lemma is_digit_digit_char: "n < 10 \<Longrightarrow> is_digit (digit_char n)"
  by (simp add: is_digit_def less_eq_char_def of_char_digit_char)

lemma digit_val_digit_char: "n < 10 \<Longrightarrow> digit_val (digit_char n) = n"
  by (simp add: digit_val_def of_char_digit_char)

lemma digit_char_eq_zero: "n < 10 \<Longrightarrow> digit_char n = CHR ''0'' \<longleftrightarrow> n = 0"
  using of_char_eq_iff [of "digit_char n" "CHR ''0''", where ?'a = nat]
  by (simp add: of_char_digit_char del: of_char_eq_iff)

lemma show_nat_digits: "c \<in> set (show_nat n) \<Longrightarrow> is_digit c"
proof (induction n rule: show_nat.induct)
  case (1 n)
  then show ?case
    by (subst (asm) (2) show_nat.simps) (auto simp: is_digit_digit_char split: if_splits)
qed

lemma show_nat_not_Nil: "show_nat n \<noteq> []"
  by (subst show_nat.simps) simp

lemma show_nat_0: "show_nat 0 = ''0''"
  by (subst show_nat.simps) (simp add: digit_char_def char_of_eq)

lemma hd_show_nat: "0 < n \<Longrightarrow> hd (show_nat n) \<noteq> CHR ''0''"
proof (induction n rule: show_nat.induct)
  case (1 n)
  show ?case
  proof (cases "n < 10")
    case True
    then show ?thesis using "1.prems" by (subst show_nat.simps) (simp add: digit_char_eq_zero)
  next
    case False
    then have "hd (show_nat (n div 10)) \<noteq> CHR ''0''" using 1 by simp
    then show ?thesis using False show_nat_not_Nil [of "n div 10"]
      by (subst show_nat.simps) simp
  qed
qed

lemma nat_of_digits_append:
  "nat_of_digits acc (xs @ [c]) = 10 * nat_of_digits acc xs + digit_val c"
  by (induction xs arbitrary: acc) simp_all

lemma nat_of_digits_show_nat: "nat_of_digits 0 (show_nat n) = n"
proof (induction n rule: show_nat.induct)
  case (1 n)
  show ?case
  proof (cases "n < 10")
    case True
    then show ?thesis by (subst show_nat.simps) (simp add: digit_val_digit_char)
  next
    case False
    then show ?thesis using 1
      by (subst show_nat.simps) (simp add: nat_of_digits_append digit_val_digit_char)
  qed
qed

subsection \<open>The field of a number\<close>

lemma extract_float_loop_digits:
  "\<forall>c \<in> set ds. is_digit c \<Longrightarrow>
     extract_float_loop fm fd fs xtrc (ds @ rest)
       = extract_float_loop (fm \<or> ds \<noteq> []) fd fs (xtrc @ ds) rest"
  by (induction ds arbitrary: fm xtrc) simp_all

lemma extract_float_loop_end:
  "number_end rest \<Longrightarrow> extract_float_loop fm fd fs xtrc rest = (xtrc, rest)"
  by (cases rest) (auto simp: number_end_def is_digit_def less_eq_char_def)

lemma is_digit_not_sign: "is_digit c \<Longrightarrow> c \<noteq> CHR ''+'' \<and> c \<noteq> CHR ''-''"
  by (auto simp: is_digit_def less_eq_char_def)

lemma extract_float_digits:
  assumes "number_end rest"
  shows "extract_float (show_nat n @ rest) = (show_nat n, rest)"
proof (cases "n = 0")
  case True
  have "takeWhile (\<lambda>c. c = CHR ''0'') rest = []" "dropWhile (\<lambda>c. c = CHR ''0'') rest = rest"
    using assms by (cases rest; auto simp: number_end_def)+
  then show ?thesis
    using assms by (simp add: True show_nat_0 extract_float_def extract_float_loop_end)
next
  case False
  obtain d ds where ds: "show_nat n = d # ds" using show_nat_not_Nil [of n] by (cases "show_nat n") auto
  have d: "d \<noteq> CHR ''0''" "is_digit d" "\<forall>c \<in> set ds. is_digit c"
    using hd_show_nat [of n] False show_nat_digits [of _ n] by (auto simp: ds)
  have "extract_float_loop False False False [] ((d # ds) @ rest)
      = extract_float_loop True False False (d # ds) rest"
    using extract_float_loop_digits [of "d # ds" False False False "[]" rest] d by simp
  then show ?thesis
    using d is_digit_not_sign [of d] assms by (simp add: ds extract_float_def extract_float_loop_end)
qed

lemma extract_float_minus_digits:
  assumes "number_end rest" "0 < n"
  shows "extract_float (CHR ''-'' # show_nat n @ rest) = (CHR ''-'' # show_nat n, rest)"
proof -
  obtain d ds where ds: "show_nat n = d # ds" using show_nat_not_Nil [of n] by (cases "show_nat n") auto
  have d: "d \<noteq> CHR ''0''" "is_digit d" "\<forall>c \<in> set ds. is_digit c"
    using hd_show_nat [of n] assms(2) show_nat_digits [of _ n] by (auto simp: ds)
  have "extract_float_loop False False False ''-'' ((d # ds) @ rest)
      = extract_float_loop True False False (''-'' @ d # ds) rest"
    using extract_float_loop_digits [of "d # ds" False False False "''-''" rest] d by simp
  then show ?thesis
    using d assms by (simp add: ds extract_float_def extract_float_loop_end)
qed

lemma takeWhile_all: "\<forall>c \<in> set ds. P c \<Longrightarrow> takeWhile P ds = ds"
  by (induction ds) simp_all

lemma convert_to_v_digits:
  "convert_to_v (show_nat n) =
     (if round_to_double n 1 \<ge> double_infinity then (word_of_nat double_max, True)
      else (word_of_nat (round_to_double n 1), False))"
proof -
  obtain d ds where ds: "show_nat n = d # ds" using show_nat_not_Nil [of n] by (cases "show_nat n") auto
  have d: "is_digit d" "\<forall>c \<in> set ds. is_digit c"
    using show_nat_digits [of _ n] by (auto simp: ds)
  have t: "takeWhile is_digit ds = ds" "dropWhile is_digit ds = []"
    using d by (simp_all add: takeWhile_all)
  have n: "nat_of_digits 0 (d # ds) = n" using nat_of_digits_show_nat [of n] by (simp add: ds)
  show ?thesis
    unfolding ds convert_to_v_def
    using d(1) is_digit_not_sign [of d] n by (simp add: Let_def t)
qed

lemma convert_to_v_minus_digits:
  "convert_to_v (CHR ''-'' # show_nat n) =
     (if round_to_double n 1 \<ge> double_infinity then (word_of_nat (sign_mask + double_max), True)
      else (word_of_nat (sign_mask + round_to_double n 1), False))"
proof -
  obtain d ds where ds: "show_nat n = d # ds" using show_nat_not_Nil [of n] by (cases "show_nat n") auto
  have d: "is_digit d" "\<forall>c \<in> set ds. is_digit c"
    using show_nat_digits [of _ n] by (auto simp: ds)
  have t: "takeWhile is_digit ds = ds" "dropWhile is_digit ds = []"
    using d by (simp_all add: takeWhile_all)
  have n: "nat_of_digits 0 (d # ds) = n" using nat_of_digits_show_nat [of n] by (simp add: ds)
  show ?thesis
    unfolding ds convert_to_v_def
    using d(1) is_digit_not_sign [of d] n by (simp add: Let_def t)
qed


subsection \<open>Integers that a double holds\<close>

lemma bit_length_less: "n < 2 ^ bit_length n"
proof (induction n rule: bit_length.induct)
  case (1 n)
  show ?case
  proof (cases "n = 0")
    case True
    then show ?thesis by (subst bit_length.simps) simp
  next
    case False
    then have "n div 2 < 2 ^ bit_length (n div 2)" using 1 by simp
    then have "n < 2 * 2 ^ bit_length (n div 2)" by linarith
    then show ?thesis using False by (subst bit_length.simps) simp
  qed
qed

lemma bit_length_ge: "0 < n \<Longrightarrow> 2 ^ (bit_length n - 1) \<le> n"
proof (induction n rule: bit_length.induct)
  case (1 n)
  have bl: "bit_length n = Suc (bit_length (n div 2))"
    using "1.prems" by (subst bit_length.simps) simp
  show ?case
  proof (cases "n div 2 = 0")
    case True
    then have "bit_length (n div 2) = 0" by (subst bit_length.simps) simp
    then show ?thesis using "1.prems" bl by simp
  next
    case False
    then have ih: "2 ^ (bit_length (n div 2) - 1) \<le> n div 2" using 1 by simp
    have "0 < bit_length (n div 2)" using False by (subst bit_length.simps) simp
    then have "(2::nat) ^ bit_length (n div 2) = 2 * 2 ^ (bit_length (n div 2) - 1)"
      by (cases "bit_length (n div 2)") simp_all
    then show ?thesis using ih bl by simp
  qed
qed

lemma bit_length_pos: "0 < n \<Longrightarrow> 0 < bit_length n"
  by (subst bit_length.simps) simp

lemma bit_length_1: "bit_length (Suc 0) = Suc 0"
  by (simp add: bit_length.simps)

lemma bit_length_le_53:
  assumes "0 < n" "n < 2 ^ 53"
  shows "bit_length n \<le> 53"
proof -
  have "(2::nat) ^ (bit_length n - 1) < 2 ^ 53"
    using bit_length_ge [OF assms(1)] assms(2) by simp
  then have "bit_length n - 1 < 53" by (simp only: power_strict_increasing_iff rel_simps)
  then show ?thesis by simp
qed

lemma floor_log2_nat: "0 < n \<Longrightarrow> floor_log2 n (Suc 0) = int (bit_length n) - 1"
  using bit_length_ge [of n] bit_length_pos [of n]
  by (simp add: floor_log2_def bit_length_1 Let_def nat_diff_distrib)

lemma round_half_even_1: "round_half_even n (Suc 0) = n"
  by (simp add: round_half_even_def)

lemma round_to_double_small:
  assumes "0 < n" "n < 2 ^ 53"
  shows "round_to_double n (Suc 0) = (bit_length n + 1021) * 2 ^ 52 + n * 2 ^ (53 - bit_length n)"
proof -
  have b: "0 < bit_length n" "bit_length n \<le> 53"
    using assms bit_length_pos bit_length_le_53 by simp_all
  have E: "max (floor_log2 n (Suc 0)) (- 1022) = int (bit_length n) - 1"
    using assms(1) by (simp add: floor_log2_nat)
  have n1: "nat (int (bit_length n) - 1 + 1022) = bit_length n + 1021" using b by simp
  show ?thesis
  proof (cases "bit_length n = 53")
    case True
    then show ?thesis
      using assms(1) by (simp add: round_to_double_def E Let_def round_half_even_1)
  next
    case False
    then have "nat (52 - (int (bit_length n) - 1)) = 53 - bit_length n" using b by simp
    then show ?thesis
      using assms(1) False b n1 by (simp add: round_to_double_def E Let_def round_half_even_1)
  qed
qed

lemma scaled_range:
  assumes "0 < n" "n < 2 ^ 53"
  shows "2 ^ 52 \<le> n * 2 ^ (53 - bit_length n)" "n * 2 ^ (53 - bit_length n) < 2 ^ 53"
proof -
  have b: "0 < bit_length n" "bit_length n \<le> 53"
    using assms bit_length_pos bit_length_le_53 by simp_all
  have "(2::nat) ^ 52 = 2 ^ (bit_length n - 1) * 2 ^ (53 - bit_length n)"
    using b by (simp flip: power_add)
  also have "\<dots> \<le> n * 2 ^ (53 - bit_length n)"
    using bit_length_ge [OF assms(1)] by (rule mult_right_mono) simp
  finally show "2 ^ 52 \<le> n * 2 ^ (53 - bit_length n)" .
  have "n * 2 ^ (53 - bit_length n) < 2 ^ bit_length n * 2 ^ (53 - bit_length n)"
    using bit_length_less [of n] by (rule mult_strict_right_mono) simp
  also have "\<dots> = 2 ^ 53" using b by (simp flip: power_add)
  finally show "n * 2 ^ (53 - bit_length n) < 2 ^ 53" .
qed

lemma div_mod_decomp: "f < q \<Longrightarrow> (a * q + f) div q = a \<and> (a * q + f) mod q = (f::nat)"
  by simp

text \<open>The fields of a pattern put together from a sign, an exponent and a fraction.\<close>

lemma double_fields:
  assumes "e < 2048" "f < 2 ^ 52" "sg \<le> 1"
  defines "d \<equiv> (word_of_nat (sg * sign_mask + (e * 2 ^ 52 + f)) :: 64 word)"
  shows "double_exponent d = e" "double_fraction d = f" "double_sign d \<longleftrightarrow> sg = 1"
proof -
  have "e * 2 ^ 52 + f < 2048 * 2 ^ 52"
  proof -
    have "e * 2 ^ 52 + f < e * 2 ^ 52 + 2 ^ 52" using assms(2) by simp
    also have "\<dots> = (e + 1) * 2 ^ 52" by simp
    also have "\<dots> \<le> 2048 * 2 ^ 52" using assms(1) by (intro mult_right_mono) simp_all
    finally show ?thesis .
  qed
  then have lt: "e * 2 ^ 52 + f < 2 ^ 63" by simp
  have "sg * sign_mask + (e * 2 ^ 52 + f) < 2 ^ 64"
    using lt assms(3) by (cases "sg = 0") (simp_all add: sign_mask_def)
  then have u: "unat d = sg * sign_mask + (e * 2 ^ 52 + f)"
    unfolding d_def unat_of_nat by simp
  have eq: "sg * sign_mask + (e * 2 ^ 52 + f) = (sg * 2048 + e) * 2 ^ 52 + f"
    by (simp add: sign_mask_def algebra_simps)
  have dv: "(sg * sign_mask + (e * 2 ^ 52 + f)) div 2 ^ 52 = sg * 2048 + e"
    unfolding eq using assms(2) by (rule div_mod_decomp [THEN conjunct1])
  have md: "(sg * sign_mask + (e * 2 ^ 52 + f)) mod 2 ^ 52 = f"
    unfolding eq using assms(2) by (rule div_mod_decomp [THEN conjunct2])
  show "double_exponent d = e"
    unfolding double_exponent_def u dv using assms(1) by simp
  show "double_fraction d = f"
    unfolding double_fraction_def u md ..
  have "(sg * sign_mask + (e * 2 ^ 52 + f)) div 2 ^ 63 = sg"
    using lt div_mod_decomp [of "e * 2 ^ 52 + f" "2 ^ 63" sg] by (simp only: sign_mask_def) simp
  then have "unat d div 2 ^ 63 = sg" unfolding u .
  then have "odd (unat d div 2 ^ 63) \<longleftrightarrow> sg = 1"
    using assms(3) by (cases "sg = 0") (auto simp: le_Suc_eq)
  moreover have "bit d 63 \<longleftrightarrow> bit (unat d) 63" by (simp add: bit_unsigned_iff)
  moreover have "bit (unat d) 63 \<longleftrightarrow> odd (unat d div 2 ^ 63)" by (rule bit_iff_odd)
  ultimately show "double_sign d \<longleftrightarrow> sg = 1"
    unfolding double_sign_def by blast
qed


lemma number_collapse_small:
  assumes "0 < n" "n < 2 ^ 53" "sg \<le> 1"
  defines "d \<equiv> (word_of_nat (sg * sign_mask + round_to_double n (Suc 0)) :: 64 word)"
  shows "number_collapse d = Returns (Integer (word_of_int ((if sg = 1 then - 1 else 1) * int n)))"
    and "round_to_double n (Suc 0) < double_infinity"
proof -
  let ?b = "bit_length n"
  let ?m = "n * 2 ^ (53 - ?b)"
  have b: "0 < ?b" "?b \<le> 53"
    using assms bit_length_pos bit_length_le_53 by simp_all
  have m: "2 ^ 52 \<le> ?m" "?m < 2 ^ 53" using assms(1,2) by (rule scaled_range)+
  have r: "round_to_double n (Suc 0) = (?b + 1022) * 2 ^ 52 + (?m - 2 ^ 52)"
    using m(1) by (simp add: round_to_double_small [OF assms(1,2)] algebra_simps)
  have e: "?b + 1022 < 2048" using b by simp
  have f: "?m - 2 ^ 52 < 2 ^ 52" using m by simp
  have d: "d = word_of_nat (sg * sign_mask + ((?b + 1022) * 2 ^ 52 + (?m - 2 ^ 52)))"
    unfolding d_def r ..
  have ex: "double_exponent d = ?b + 1022" unfolding d using e f assms(3) by (rule double_fields)
  have fr: "double_fraction d = ?m - 2 ^ 52" unfolding d using e f assms(3) by (rule double_fields)
  have sn: "double_sign d \<longleftrightarrow> sg = 1" unfolding d using e f assms(3) by (rule double_fields)
  have sig: "double_significand d = ?m"
    using m(1) by (simp add: double_significand_def ex fr)
  have sc: "double_scale d = int ?b - 53" by (simp add: double_scale_def ex)
  have fin: "double_finite d" using b by (simp add: double_finite_def ex)
  have tr: "double_trunc d = (if sg = 1 then - 1 else 1) * int n"
  proof (cases "?b = 53")
    case True
    then show ?thesis by (simp add: double_trunc_def sn sig sc)
  next
    case False
    then have "nat (53 - int ?b) = 53 - ?b" "\<not> int ?b - 53 \<ge> 0" using b by simp_all
    then show ?thesis by (simp add: double_trunc_def sn sig sc)
  qed
  have int: "double_integral d"
  proof (cases "?b = 53")
    case True
    then show ?thesis by (simp add: double_integral_def sc)
  next
    case False
    then have "nat (53 - int ?b) = 53 - ?b" using b by simp
    then show ?thesis by (simp add: double_integral_def sig sc)
  qed
  have "int n < 2 ^ 53" using assms(2) by (metis of_nat_less_iff of_nat_numeral of_nat_power)
  then have rg: "\<not> (double_trunc d < - (2 ^ 63) \<or> 2 ^ 63 \<le> double_trunc d)"
    by (simp add: tr)
  show "number_collapse d = Returns (Integer (word_of_int ((if sg = 1 then - 1 else 1) * int n)))"
    using fin int rg by (simp add: number_collapse_def tr)
  have "(?b + 1022) * 2 ^ 52 + (?m - 2 ^ 52) < (?b + 1022) * 2 ^ 52 + 2 ^ 52" using f by simp
  also have "\<dots> = (?b + 1023) * 2 ^ 52" by simp
  also have "\<dots> \<le> 2047 * 2 ^ 52" using b by (intro mult_right_mono) simp_all
  finally show "round_to_double n (Suc 0) < double_infinity"
    unfolding r by (simp add: double_infinity_def)
qed

lemma number_collapse_zero: "number_collapse (word_of_nat (round_to_double 0 (Suc 0))) = Returns (Integer 0)"
  by (simp add: number_eval)


subsection \<open>Streams in good state\<close>

lemma eliminateWhitespace_visible:
  "\<not> is_blank c \<Longrightarrow> eliminateWhitespace (istream_of (c # cs)) = istream_of (c # cs)"
  by (simp add: istream_of_def eliminateWhitespace_simps)

lemma eliminateWhitespace_space:
  "eliminateWhitespace (istream_of (CHR '' '' # cs)) = eliminateWhitespace (istream_of cs)"
  by (simp add: istream_of_def eliminateWhitespace_simps is_blank_def)

lemma istream_get_visible: "istream_get (istream_of (c # cs)) = (Some c, istream_of cs)"
  by (simp add: istream_of_def istream_get_simps)

lemma istream_putback_good: "istream_putback c (istream_of cs) = istream_of (c # cs)"
  by (simp add: istream_of_def istream_putback_simps)

lemma istream_extract_char_visible:
  "\<not> isspace c \<Longrightarrow> istream_extract_char (istream_of (c # cs)) = (Some c, istream_of cs)"
  by (simp add: istream_of_def istream_extract_char_simps)

lemma failbit_istream_of: "failbit (istream_of cs) = False"
  by (simp add: istream_of_def)

lemma getline_key:
  "CHR 0x22 \<notin> set key \<Longrightarrow> getline (CHR 0x22) (istream_of (key @ CHR 0x22 # rest)) = (key, istream_of rest)"
proof -
  assume k: "CHR 0x22 \<notin> set key"
  have "takeWhile (\<lambda>c. c \<noteq> CHR 0x22) (key @ CHR 0x22 # rest) = key"
    using k by (induction key) auto
  moreover have "dropWhile (\<lambda>c. c \<noteq> CHR 0x22) (key @ CHR 0x22 # rest) = CHR 0x22 # rest"
    using k by (induction key) auto
  ultimately show ?thesis
    by (simp add: getline_def good_def istream_of_def)
qed

lemma string_loop_printed:
  "CHR 0x22 \<notin> set str \<Longrightarrow> length str < fuel \<Longrightarrow>
     string_loop fuel c acc (istream_of (str @ CHR 0x22 # rest)) = Some (acc @ str, istream_of rest)"
proof (induction str arbitrary: fuel c acc)
  case Nil
  then obtain f where "fuel = Suc f" by (cases fuel) auto
  then show ?case by (simp add: istream_get_visible)
next
  case (Cons x str)
  then obtain f where f: "fuel = Suc f" by (cases fuel) auto
  have "string_loop f x (acc @ [x]) (istream_of (str @ CHR 0x22 # rest))
      = Some ((acc @ [x]) @ str, istream_of rest)"
    using Cons.prems f by (intro Cons.IH) auto
  then show ?case using Cons.prems by (auto simp: f istream_get_visible)
qed

subsection \<open>The first character of a printed value\<close>

lemma value_start_visible:
  "value_start c \<Longrightarrow> \<not> is_blank c \<and> \<not> isspace c \<and> c \<noteq> CHR '']'' \<and> c \<noteq> CHR ''}''"
  by (auto simp: value_start_def is_digit_def less_eq_char_def is_blank_def isspace_def)

lemma print_int64_start: "\<exists>c cs. print_int64 i = c # cs \<and> value_start c"
proof (cases "sint i < 0")
  case True
  then show ?thesis by (simp add: print_int64_def value_start_def)
next
  case False
  obtain d ds where "show_nat (nat (sint i)) = d # ds"
    using show_nat_not_Nil [of "nat (sint i)"] by (cases "show_nat (nat (sint i))") auto
  then show ?thesis
    using False show_nat_digits [of d "nat (sint i)"] by (simp add: print_int64_def value_start_def)
qed

lemma print_start: "text_safe v \<Longrightarrow> \<exists>c cs. print_ConValue v = c # cs \<and> value_start c"
  using print_int64_start by (cases v) (auto simp: value_start_def)

subsection \<open>Scalars\<close>

lemma parse_Boolean_printed:
  "parse_ConValue (Suc fuel) (istream_of (print_ConValue (Boolean b) @ rest))
     = Some (Returns (Boolean b, istream_of rest))"
  by (cases b)
     (simp_all add: eliminateWhitespace_visible istream_get_visible istream_putback_good is_blank_def
        numeral_eq_Suc)

lemma parse_String_printed:
  assumes "CHR 0x22 \<notin> set str" "length str < fuel"
  shows "parse_ConValue (Suc fuel) (istream_of (print_ConValue (String str) @ rest))
     = Some (Returns (String str, istream_of rest))"
  using string_loop_printed [OF assms, of "CHR 0x22" "[]" rest]
  by (simp add: eliminateWhitespace_visible istream_get_visible istream_putback_good is_blank_def)

lemma parse_number_branch:
  assumes "is_digit c \<or> c = CHR ''-''"
  shows "parse_ConValue (Suc fuel) (istream_of (c # cs)) =
     (case extract_float (c # cs) of (xtrc, rest) \<Rightarrow>
      case convert_to_v xtrc of (v, err) \<Rightarrow>
        bind_read (number_collapse v) (\<lambda>x. Some (Returns (x, \<lparr>buf = rest, eofbit = (rest = []), failbit = err\<rparr>))))"
proof -
  have c: "c \<notin> set ''ntf\"[{''" "\<not> is_blank c" "\<not> isspace c"
    using assms by (auto simp: is_digit_def less_eq_char_def is_blank_def isspace_def)
  show ?thesis
    using c
    by (simp add: istream_of_def eliminateWhitespace_simps istream_get_simps istream_putback_simps
        istream_extract_double_simps split: prod.splits)
qed

lemma parse_Integer_printed:
  assumes "- (2 ^ 53) < sint i" "sint i < 2 ^ 53" "number_end rest"
  shows "parse_ConValue (Suc fuel) (istream_of (print_ConValue (Integer i) @ rest))
     = Some (Returns (Integer i, \<lparr>buf = rest, eofbit = (rest = []), failbit = False\<rparr>))"
proof (cases "sint i < 0")
  case True
  let ?n = "nat (- sint i)"
  have n: "0 < ?n" "?n < 2 ^ 53" using True assms(1) by simp_all
  have i: "word_of_int (- int ?n) = i" using True by simp
  have c: "number_collapse (word_of_nat (sign_mask + round_to_double ?n (Suc 0))) = Returns (Integer i)"
    using number_collapse_small(1) [OF n, of 1] i by simp
  have r: "round_to_double ?n (Suc 0) < double_infinity"
    using number_collapse_small(2) [OF n, of 1] by simp
  have p: "parse_ConValue (Suc fuel) (istream_of (CHR ''-'' # show_nat ?n @ rest)) =
     (case extract_float (CHR ''-'' # show_nat ?n @ rest) of (xtrc, rest) \<Rightarrow>
      case convert_to_v xtrc of (v, err) \<Rightarrow>
        bind_read (number_collapse v) (\<lambda>x. Some (Returns (x, \<lparr>buf = rest, eofbit = (rest = []), failbit = err\<rparr>))))"
    by (rule parse_number_branch) simp
  show ?thesis
    using True r c
    by (simp add: print_int64_def p extract_float_minus_digits [OF assms(3) n(1)]
        convert_to_v_minus_digits del: parse_ConValue.simps)
next
  case False
  let ?n = "nat (sint i)"
  have i: "word_of_int (int ?n) = i" using False by simp
  obtain d ds where ds: "show_nat ?n = d # ds"
    using show_nat_not_Nil [of ?n] by (cases "show_nat ?n") auto
  have d: "is_digit d" using show_nat_digits [of d ?n] by (simp add: ds)
  have p: "parse_ConValue (Suc fuel) (istream_of (show_nat ?n @ rest)) =
     (case extract_float (show_nat ?n @ rest) of (xtrc, rest) \<Rightarrow>
      case convert_to_v xtrc of (v, err) \<Rightarrow>
        bind_read (number_collapse v) (\<lambda>x. Some (Returns (x, \<lparr>buf = rest, eofbit = (rest = []), failbit = err\<rparr>))))"
    unfolding ds append_Cons using d by (intro parse_number_branch) simp
  have c: "number_collapse (word_of_nat (round_to_double ?n (Suc 0))) = Returns (Integer i)
      \<and> round_to_double ?n (Suc 0) < double_infinity"
  proof (cases "?n = 0")
    case True
    then have "i = 0" using i by simp
    then show ?thesis
      using True number_collapse_zero by (simp add: round_to_double_def double_infinity_def)
  next
    case nz: False
    then have n: "0 < ?n" "?n < 2 ^ 53" using assms(2) by simp_all
    show ?thesis
      using number_collapse_small [OF n, of 0] i by simp
  qed
  show ?thesis
    using False c
    by (simp add: print_int64_def p extract_float_digits [OF assms(3)] convert_to_v_digits
        del: parse_ConValue.simps)
qed


lemma delimited_simps [simp]:
  "delimited (CHR '','' # cs)" "delimited (CHR '']'' # cs)" "delimited (CHR ''}'' # cs)"
  by (simp_all add: delimited_def)

lemma delimited_number_end: "delimited rest \<Longrightarrow> number_end rest"
  by (simp add: delimited_def number_end_def)

lemma delimited_visible:
  "delimited rest \<Longrightarrow> eliminateWhitespace (istream_of rest) = istream_of rest"
  by (cases rest) (auto simp: delimited_def eliminateWhitespace_visible is_blank_def)

lemma eliminateWhitespace_value:
  assumes "text_safe v"
  shows "eliminateWhitespace (istream_of (print_ConValue v @ rest)) = istream_of (print_ConValue v @ rest)"
    and "eliminateWhitespace (istream_of (CHR '' '' # print_ConValue v @ rest)) = istream_of (print_ConValue v @ rest)"
proof -
  obtain c cs where c: "print_ConValue v = c # cs" "value_start c"
    using print_start [OF assms] by blast
  show "eliminateWhitespace (istream_of (print_ConValue v @ rest)) = istream_of (print_ConValue v @ rest)"
    using value_start_visible [OF c(2)] by (simp add: c(1) eliminateWhitespace_visible)
  then show "eliminateWhitespace (istream_of (CHR '' '' # print_ConValue v @ rest)) = istream_of (print_ConValue v @ rest)"
    by (simp add: eliminateWhitespace_space)
qed

subsection \<open>Arrays\<close>

lemma parse_ConArray_loop_printed:
  assumes "\<And>v fuel rest. v \<in> set vs \<Longrightarrow> length (print_ConValue v) < fuel \<Longrightarrow> delimited rest
             \<Longrightarrow> parse_ConValue fuel (istream_of (print_ConValue v @ rest)) = Some (Returns (v, istream_of rest))"
    and "\<forall>v \<in> set vs. text_safe v" and "vs \<noteq> []"
    and "Suc (length (print_ConArray_loop vs)) < fuel"
    and "eliminateWhitespace s = istream_of (print_ConArray_loop vs @ CHR '']'' # rest)"
  shows "parse_ConArray_loop fuel c acc s = Some (Returns (acc @ vs, istream_of rest))"
  using assms
proof (induction vs arbitrary: fuel c acc s)
  case Nil
  then show ?case by simp
next
  case (Cons v vs)
  obtain f where f: "fuel = Suc f" using Cons.prems(4) by (cases fuel) auto
  let ?tail = "(if vs \<noteq> [] then '', '' else []) @ print_ConArray_loop vs @ CHR '']'' # rest"
  have s: "eliminateWhitespace s = istream_of (print_ConValue v @ ?tail)"
    using Cons.prems(5) by simp
  have d: "delimited ?tail" by (cases vs) simp_all
  have len: "length (print_ConValue v) < f" using Cons.prems(4) f by simp
  have 1: "parse_ConValue f (istream_of (print_ConValue v @ ?tail)) = Some (Returns (v, istream_of ?tail))"
    using len d by (intro Cons.prems(1)) simp_all
  show ?case
  proof (cases "vs = []")
    case True
    then show ?thesis
      using 1 by (simp add: f s eliminateWhitespace_visible istream_extract_char_visible
          is_blank_def isspace_def)
  next
    case False
    then obtain v' vs' where vs: "vs = v' # vs'" by (cases vs) auto
    let ?s2 = "istream_of (CHR '' '' # print_ConArray_loop vs @ CHR '']'' # rest)"
    have "text_safe v'" using Cons.prems(2) vs by simp
    then have e: "eliminateWhitespace ?s2 = istream_of (print_ConArray_loop vs @ CHR '']'' # rest)"
      using eliminateWhitespace_value(2) [of v'] by (simp add: vs)
    have 2: "parse_ConArray_loop f (CHR '','') (acc @ [v]) ?s2 = Some (Returns ((acc @ [v]) @ vs, istream_of rest))"
    proof (rule Cons.IH [OF _ _ False _ e])
      show "\<forall>v \<in> set vs. text_safe v" using Cons.prems(2) by simp
      show "Suc (length (print_ConArray_loop vs)) < f" using Cons.prems(4) f False by simp
      show "parse_ConValue fuel' (istream_of (print_ConValue x @ rest')) = Some (Returns (x, istream_of rest'))"
        if "x \<in> set vs" "length (print_ConValue x) < fuel'" "delimited rest'" for x fuel' rest'
        using that by (intro Cons.prems(1)) simp_all
    qed
    show ?thesis
      using 1 2 False
      by (simp add: f s eliminateWhitespace_visible istream_extract_char_visible
          is_blank_def isspace_def)
  qed
qed

lemma parse_Array_printed:
  assumes "\<And>v fuel rest. v \<in> set vs \<Longrightarrow> length (print_ConValue v) < fuel \<Longrightarrow> delimited rest
             \<Longrightarrow> parse_ConValue fuel (istream_of (print_ConValue v @ rest)) = Some (Returns (v, istream_of rest))"
    and "\<forall>v \<in> set vs. text_safe v"
    and "length (print_ConValue (Array vs)) < Suc fuel"
  shows "parse_ConValue (Suc fuel) (istream_of (print_ConValue (Array vs) @ rest))
     = Some (Returns (Array vs, if vs = [] then eliminateWhitespace (istream_of rest) else istream_of rest))"
proof (cases vs)
  case Nil
  then show ?thesis
    by (simp add: eliminateWhitespace_visible istream_get_visible istream_putback_good
        istream_extract_char_visible is_blank_def isspace_def)
next
  case (Cons v vs')
  have "text_safe v" using assms(2) Cons by simp
  then obtain c cs where c: "print_ConValue v = c # cs" "value_start c"
    using print_start by blast
  define bt where "bt = cs @ (if vs' \<noteq> [] then '', '' else []) @ print_ConArray_loop vs' @ CHR '']'' # rest"
  have b: "print_ConArray_loop vs @ CHR '']'' # rest = c # bt"
    by (simp add: Cons c(1) bt_def)
  have v: "\<not> is_blank c" "\<not> isspace c" "c \<noteq> CHR '']''" using value_start_visible [OF c(2)] by simp_all
  have e: "eliminateWhitespace (istream_of (c # bt)) = istream_of (print_ConArray_loop vs @ CHR '']'' # rest)"
    unfolding b using v by (simp add: eliminateWhitespace_visible)
  have l: "parse_ConArray_loop fuel c [] (istream_of (c # bt)) = Some (Returns ([] @ vs, istream_of rest))"
    using assms(1,2) _ _ e
  proof (rule parse_ConArray_loop_printed)
    show "vs \<noteq> []" by (simp add: Cons)
    show "Suc (length (print_ConArray_loop vs)) < fuel" using assms(3) by simp
  qed
  have t: "print_ConValue (Array vs) @ rest = CHR ''['' # c # bt"
    using b by simp
  have ne: "vs \<noteq> []" by (simp add: Cons)
  show ?thesis
    unfolding t
    using l v ne
    by (simp add: eliminateWhitespace_visible istream_get_visible istream_putback_good
        istream_extract_char_visible is_blank_def isspace_def)
qed


subsection \<open>Objects\<close>

lemma assign_all_simps [simp]:
  "assign_all obj [] = obj"
  "assign_all obj ((key, v) # kvs) = assign_all (map_assign key v obj) kvs"
  by (simp_all add: assign_all_def)

lemma assign_all_sorted:
  "sorted_wrt (<) (map fst (acc @ kvs)) \<Longrightarrow> assign_all acc kvs = acc @ kvs"
proof (induction kvs arbitrary: acc)
  case Nil
  then show ?case by simp
next
  case (Cons kv kvs)
  obtain key v where kv: "kv = (key, v)" by (cases kv)
  have "map_assign key v acc = acc @ [(key, v)]"
    using Cons.prems kv by (intro map_assign_append) (auto simp: sorted_wrt_append)
  moreover have "assign_all (acc @ [(key, v)]) kvs = (acc @ [(key, v)]) @ kvs"
    using Cons.prems kv by (intro Cons.IH) simp
  ultimately show ?case by (simp add: kv)
qed

lemma parse_ConObject_loop_printed:
  assumes "\<And>key v fuel rest. (key, v) \<in> set kvs \<Longrightarrow> length (print_ConValue v) < fuel \<Longrightarrow> delimited rest
             \<Longrightarrow> parse_ConValue fuel (istream_of (print_ConValue v @ rest)) = Some (Returns (v, istream_of rest))"
    and "\<forall>(key, v) \<in> set kvs. CHR 0x22 \<notin> set key \<and> text_safe v" and "kvs \<noteq> []"
    and "Suc (length (print_ConObject_loop kvs)) < fuel"
    and "eliminateWhitespace s = istream_of (print_ConObject_loop kvs @ CHR ''}'' # rest)"
  shows "parse_ConObject_loop fuel c acc s = Some (Returns (assign_all acc kvs, istream_of rest))"
  using assms
proof (induction kvs arbitrary: fuel c acc s)
  case Nil
  then show ?case by simp
next
  case (Cons kv kvs)
  obtain key v where kv: "kv = (key, v)" by (cases kv)
  obtain f where f: "fuel = Suc f" using Cons.prems(4) by (cases fuel) auto
  let ?tail = "(if kvs \<noteq> [] then '', '' else []) @ print_ConObject_loop kvs @ CHR ''}'' # rest"
  have s: "eliminateWhitespace s = istream_of (CHR 0x22 # key @ CHR 0x22 # CHR '':'' # CHR '' '' # print_ConValue v @ ?tail)"
    using Cons.prems(5) by (simp add: kv)
  have safe: "CHR 0x22 \<notin> set key" "text_safe v" using Cons.prems(2) kv by simp_all
  have d: "delimited ?tail" by (cases kvs) simp_all
  have len: "length (print_ConValue v) < f" using Cons.prems(4) f by (simp add: kv)
  have 1: "parse_ConValue f (istream_of (print_ConValue v @ ?tail)) = Some (Returns (v, istream_of ?tail))"
    using len d by (intro Cons.prems(1) [of key]) (simp_all add: kv)
  have g: "getline (CHR 0x22) (istream_of (key @ CHR 0x22 # CHR '':'' # CHR '' '' # print_ConValue v @ ?tail))
      = (key, istream_of (CHR '':'' # CHR '' '' # print_ConValue v @ ?tail))"
    using safe(1) by (rule getline_key)
  have w: "eliminateWhitespace (istream_of (CHR '' '' # print_ConValue v @ ?tail)) = istream_of (print_ConValue v @ ?tail)"
    using safe(2) by (rule eliminateWhitespace_value)
  have head: "parse_ConObject_loop (Suc f) c acc s =
      (case istream_extract_char (eliminateWhitespace (istream_of ?tail)) of (r3, s5) \<Rightarrow>
         let c3 = (case r3 of None \<Rightarrow> CHR '':'' | Some x \<Rightarrow> x)
         in if c3 = CHR ''}'' then Some (Returns (map_assign key v acc, s5))
            else if c3 \<noteq> CHR '','' then Some (Returns (map_assign key v acc, set_failbit s5))
            else parse_ConObject_loop f c3 (map_assign key v acc) s5)"
    by (simp add: s g w 1 istream_extract_char_visible eliminateWhitespace_visible isspace_def
        is_blank_def failbit_istream_of del: print_ConValue.simps)
  show ?case
  proof (cases "kvs = []")
    case True
    then show ?thesis
      unfolding f head
      by (simp add: kv eliminateWhitespace_visible istream_extract_char_visible
          is_blank_def isspace_def)
  next
    case False
    then obtain k' v' kvs' where kvs: "kvs = (k', v') # kvs'" by (cases kvs) auto
    let ?s2 = "istream_of (CHR '' '' # print_ConObject_loop kvs @ CHR ''}'' # rest)"
    have e: "eliminateWhitespace ?s2 = istream_of (print_ConObject_loop kvs @ CHR ''}'' # rest)"
      by (simp add: kvs eliminateWhitespace_space eliminateWhitespace_visible is_blank_def)
    have 2: "parse_ConObject_loop f (CHR '','') (map_assign key v acc) ?s2
        = Some (Returns (assign_all (map_assign key v acc) kvs, istream_of rest))"
    proof (rule Cons.IH [OF _ _ False _ e])
      show "\<forall>(key, v) \<in> set kvs. CHR 0x22 \<notin> set key \<and> text_safe v" using Cons.prems(2) by simp
      show "Suc (length (print_ConObject_loop kvs)) < f" using Cons.prems(4) f False by (simp add: kv)
      show "parse_ConValue fuel' (istream_of (print_ConValue x @ rest')) = Some (Returns (x, istream_of rest'))"
        if "(k, x) \<in> set kvs" "length (print_ConValue x) < fuel'" "delimited rest'" for k x fuel' rest'
        using that by (intro Cons.prems(1) [of k]) simp_all
    qed
    show ?thesis
      unfolding f head
      using 2 False
      by (simp add: kv eliminateWhitespace_visible istream_extract_char_visible
          is_blank_def isspace_def)
  qed
qed

lemma parse_Object_printed:
  assumes "\<And>key v fuel rest. (key, v) \<in> set kvs \<Longrightarrow> length (print_ConValue v) < fuel \<Longrightarrow> delimited rest
             \<Longrightarrow> parse_ConValue fuel (istream_of (print_ConValue v @ rest)) = Some (Returns (v, istream_of rest))"
    and "\<forall>(key, v) \<in> set kvs. CHR 0x22 \<notin> set key \<and> text_safe v"
    and "length (print_ConValue (Object kvs)) < Suc fuel"
  shows "parse_ConValue (Suc fuel) (istream_of (print_ConValue (Object kvs) @ rest))
     = Some (Returns (Object (assign_all [] kvs),
                      if kvs = [] then eliminateWhitespace (istream_of rest) else istream_of rest))"
proof (cases kvs)
  case Nil
  then show ?thesis
    by (simp add: eliminateWhitespace_visible istream_get_visible istream_putback_good
        istream_extract_char_visible is_blank_def isspace_def)
next
  case (Cons kv kvs')
  obtain key v where kv: "kv = (key, v)" by (cases kv)
  define bt where "bt = key @ CHR 0x22 # CHR '':'' # CHR '' '' # print_ConValue v
      @ (if kvs' \<noteq> [] then '', '' else []) @ print_ConObject_loop kvs' @ CHR ''}'' # rest"
  have b: "print_ConObject_loop kvs @ CHR ''}'' # rest = CHR 0x22 # bt"
    by (simp add: Cons kv bt_def)
  have e: "eliminateWhitespace (istream_of (CHR 0x22 # bt)) = istream_of (print_ConObject_loop kvs @ CHR ''}'' # rest)"
    unfolding b by (simp add: eliminateWhitespace_visible is_blank_def)
  have l: "parse_ConObject_loop fuel (CHR 0x22) [] (istream_of (CHR 0x22 # bt))
      = Some (Returns (assign_all [] kvs, istream_of rest))"
    using assms(1,2) _ _ e
  proof (rule parse_ConObject_loop_printed)
    show "kvs \<noteq> []" by (simp add: Cons)
    show "Suc (length (print_ConObject_loop kvs)) < fuel" using assms(3) by simp
  qed
  have t: "print_ConValue (Object kvs) @ rest = CHR ''{'' # CHR 0x22 # bt"
    using b by simp
  have ne: "kvs \<noteq> []" by (simp add: Cons)
  show ?thesis
    unfolding t
    using l ne
    by (simp add: eliminateWhitespace_visible istream_get_visible istream_putback_good
        istream_extract_char_visible is_blank_def isspace_def)
qed

subsection \<open>Round trip\<close>

lemma print_parse_nested:
  "text_safe v \<Longrightarrow> keys_sorted v \<Longrightarrow> length (print_ConValue v) < fuel \<Longrightarrow> delimited rest
     \<Longrightarrow> parse_ConValue fuel (istream_of (print_ConValue v @ rest)) = Some (Returns (v, istream_of rest))"
proof (induction v arbitrary: fuel rest)
  case Null
  then show ?case by simp
next
  case (Boolean b)
  then obtain f where f: "fuel = Suc f" by (cases fuel) auto
  show ?case unfolding f by (rule parse_Boolean_printed)
next
  case (Integer i)
  then obtain f where f: "fuel = Suc f" by (cases fuel) auto
  have "parse_ConValue (Suc f) (istream_of (print_ConValue (Integer i) @ rest))
     = Some (Returns (Integer i, \<lparr>buf = rest, eofbit = (rest = []), failbit = False\<rparr>))"
    using Integer.prems by (intro parse_Integer_printed delimited_number_end) simp_all
  then show ?case using Integer.prems(4) by (simp add: f delimited_def istream_of_def)
next
  case (Float d)
  then show ?case by simp
next
  case (String str)
  then obtain f where f: "fuel = Suc f" by (cases fuel) auto
  show ?case unfolding f using String.prems f by (intro parse_String_printed) simp_all
next
  case (Array vs)
  then obtain f where f: "fuel = Suc f" by (cases fuel) auto
  have "parse_ConValue (Suc f) (istream_of (print_ConValue (Array vs) @ rest))
     = Some (Returns (Array vs, if vs = [] then eliminateWhitespace (istream_of rest) else istream_of rest))"
  proof (rule parse_Array_printed)
    show "\<forall>v \<in> set vs. text_safe v" using Array.prems(1) by simp
    show "length (print_ConValue (Array vs)) < Suc f" using Array.prems(3) f by simp
    show "parse_ConValue fuel' (istream_of (print_ConValue x @ rest')) = Some (Returns (x, istream_of rest'))"
      if "x \<in> set vs" "length (print_ConValue x) < fuel'" "delimited rest'" for x fuel' rest'
      using that Array.prems(1,2) by (intro Array.IH) simp_all
  qed
  then show ?case using Array.prems(4) by (simp add: f delimited_visible del: print_ConValue.simps parse_ConValue.simps)
next
  case (Object kvs)
  then obtain f where f: "fuel = Suc f" by (cases fuel) auto
  have "parse_ConValue (Suc f) (istream_of (print_ConValue (Object kvs) @ rest))
     = Some (Returns (Object (assign_all [] kvs),
                      if kvs = [] then eliminateWhitespace (istream_of rest) else istream_of rest))"
  proof (rule parse_Object_printed)
    show "\<forall>(key, v) \<in> set kvs. CHR 0x22 \<notin> set key \<and> text_safe v" using Object.prems(1) by simp
    show "length (print_ConValue (Object kvs)) < Suc f" using Object.prems(3) f by simp
    show "parse_ConValue fuel' (istream_of (print_ConValue x @ rest')) = Some (Returns (x, istream_of rest'))"
      if "(k, x) \<in> set kvs" "length (print_ConValue x) < fuel'" "delimited rest'" for k x fuel' rest'
    proof (rule Object.IH [OF that(1)])
      show "x \<in> Basic_BNFs.snds (k, x)" by simp
      show "text_safe x" "keys_sorted x" using that(1) Object.prems(1,2) by auto
    qed (use that in simp_all)
  qed
  moreover have "assign_all [] kvs = kvs"
    using Object.prems(2) assign_all_sorted [of "[]" kvs] by simp
  ultimately show ?case
    using Object.prems(4) by (simp add: f delimited_visible del: print_ConValue.simps parse_ConValue.simps)
next
  case (Invalid t)
  then show ?case by simp
qed


lemma digit_char_numerals:
  "digit_char 0 = CHR ''0''" "digit_char (Suc 0) = CHR ''1''" "digit_char 2 = CHR ''2''"
  "digit_char 3 = CHR ''3''" "digit_char 4 = CHR ''4''" "digit_char 5 = CHR ''5''"
  "digit_char 6 = CHR ''6''" "digit_char 7 = CHR ''7''" "digit_char 8 = CHR ''8''"
  "digit_char 9 = CHR ''9''"
  by (simp_all add: digit_char_def char_of_eq)






section \<open>Duplicate keys\<close>

subsection \<open>What a sequence of assignments leaves\<close>

lemma assign_all_sorted_keys:
  "sorted_wrt (<) (map fst acc) \<Longrightarrow> sorted_wrt (<) (map fst (assign_all acc kvs))"
proof (induction kvs arbitrary: acc)
  case Nil
  then show ?case by simp
next
  case (Cons kv kvs)
  obtain key v where kv: "kv = (key, v)" by (cases kv)
  show ?case using Cons.prems by (simp add: kv Cons.IH sorted_map_assign)
qed

lemma assign_all_map_of:
  "sorted_wrt (<) (map fst acc) \<Longrightarrow> map_of (assign_all acc kvs) = map_of (rev kvs @ acc)"
proof (induction kvs arbitrary: acc)
  case Nil
  then show ?case by simp
next
  case (Cons kv kvs)
  obtain key v where kv: "kv = (key, v)" by (cases kv)
  have "map_of (assign_all (map_assign key v acc) kvs) = map_of (rev kvs @ map_assign key v acc)"
    using Cons.prems by (intro Cons.IH sorted_map_assign)
  also have "\<dots> = map_of (map_assign key v acc) ++ map_of (rev kvs)" by (rule map_of_append)
  also have "\<dots> = (map_of acc)(key \<mapsto> v) ++ map_of (rev kvs)"
    using Cons.prems by (simp add: map_of_map_assign)
  also have "\<dots> = map_of (rev (kv # kvs) @ acc)" by (simp add: kv)
  finally show ?case by (simp add: kv)
qed

lemma assign_all_keys:
  "set (map fst (assign_all acc kvs)) = set (map fst acc) \<union> set (map fst kvs)"
proof (induction kvs arbitrary: acc)
  case Nil
  then show ?case by simp
next
  case (Cons kv kvs)
  obtain key v where kv: "kv = (key, v)" by (cases kv)
  show ?case using keys_map_assign [of key v acc] by (simp add: kv Cons.IH del: set_map)
qed

subsection \<open>The binary decoder\<close>

lemma ConObject_read_loop_assign:
  assumes "\<And>key v s rest. (key, v) \<in> set kvs \<Longrightarrow> good s \<Longrightarrow> buf s = ConValue_write zc (level + 1) v @ rest
            \<Longrightarrow> ConValue_read zd fuel s = Some (Returns (v, s\<lparr>buf := rest\<rparr>))"
    and "good s" and "buf s = ConObject_write_loop zc level kvs @ rest"
    and "\<forall>(key, v) \<in> set kvs. length key < 2 ^ 64"
  shows "ConObject_read_loop zd fuel (length kvs) acc s = Some (Returns (assign_all acc kvs, s\<lparr>buf := rest\<rparr>))"
  using assms
proof (induction kvs arbitrary: acc s)
  case Nil
  then show ?case by simp
next
  case (Cons kv kvs)
  obtain key v where kv: "kv = (key, v)" by (cases kv)
  let ?tail = "ConObject_write_loop zc level kvs @ rest"
  let ?s1 = "s\<lparr>buf := key @ ConValue_write zc (level + 1) v @ ?tail\<rparr>"
  let ?s2 = "s\<lparr>buf := ConValue_write zc (level + 1) v @ ?tail\<rparr>"
  let ?s3 = "s\<lparr>buf := ?tail\<rparr>"
  have len: "length key < 2 ^ 64" using Cons.prems(4) kv by simp
  have 1: "read_field 8 s = Returns (write_u64 (word_of_nat (length key)), ?s1)"
    using Cons.prems(2,3) kv by (intro read_u64_field) simp_all
  have 2: "read_field (length key) ?s1 = Returns (key, ?s2)"
    using read_field_prefix [of ?s1 key "ConValue_write zc (level + 1) v @ ?tail" "length key"]
      Cons.prems(2) by simp
  have 3: "ConValue_read zd fuel ?s2 = Some (Returns (v, ?s3))"
    using Cons.prems(1) [of key v ?s2 ?tail] Cons.prems(2) kv by simp
  have 5: "ConObject_read_loop zd fuel (length kvs) (map_assign key v acc) ?s3
             = Some (Returns (assign_all (map_assign key v acc) kvs, ?s3\<lparr>buf := rest\<rparr>))"
  proof (rule Cons.IH)
    show "good ?s3" using Cons.prems(2) by simp
    show "buf ?s3 = ?tail" by simp
    show "\<forall>(key, v) \<in> set kvs. length key < 2 ^ 64" using Cons.prems(4) by simp
    show "ConValue_read zd fuel s' = Some (Returns (v', s'\<lparr>buf := rest'\<rparr>))"
      if "(key', v') \<in> set kvs" "good s'" "buf s' = ConValue_write zc (level + 1) v' @ rest'"
      for key' v' s' rest'
      using that Cons.prems(1) [of key' v' s' rest'] by simp
  qed
  show ?case
    using len by (simp add: kv 1 2 3 5 unat_length)
qed

lemma ConValue_read_entries:
  assumes "length kvs < 2 ^ 64"
    and "\<forall>(key, v) \<in> set kvs. length key < 2 ^ 64 \<and> well_formed v \<and> size v < fuel \<and> Suc (size v) < 2 ^ 64"
  shows "ConValue_read zd (Suc fuel) (istream_of (tag_Object # CHR 0x00 # ConObject_write zc 0 kvs))
     = Some (Returns (Object (assign_all [] kvs), istream_of []))"
proof -
  let ?s = "istream_of (tag_Object # CHR 0x00 # ConObject_write zc 0 kvs)"
  let ?s1 = "istream_of (CHR 0x00 # ConObject_write zc 0 kvs)"
  let ?s2 = "istream_of (ConObject_write zc 0 kvs)"
  let ?s3 = "istream_of (ConObject_write_loop zc 0 kvs)"
  have 1: "read_field (Suc 0) ?s = Returns ([tag_Object], ?s1)"
    using read_tag [of ?s tag_Object "CHR 0x00 # ConObject_write zc 0 kvs"]
    by (simp add: istream_of_buf_update)
  have 2: "read_field (Suc 0) ?s1 = Returns ([CHR 0x00], ?s2)"
    using read_tag [of ?s1 "CHR 0x00" "ConObject_write zc 0 kvs"]
    by (simp add: istream_of_buf_update)
  have 3: "read_field 8 ?s2 = Returns (write_u64 (word_of_nat (length kvs)), ?s3)"
    using read_u64_field [of ?s2 "word_of_nat (length kvs)" "ConObject_write_loop zc 0 kvs"]
    by (simp add: istream_of_buf_update ConObject_write.simps)
  have "ConObject_read_loop zd fuel (length kvs) [] ?s3 = Some (Returns (assign_all [] kvs, ?s3\<lparr>buf := []\<rparr>))"
  proof (rule ConObject_read_loop_assign [where zc = zc and level = 0])
    show "good ?s3" by simp
    show "buf ?s3 = ConObject_write_loop zc 0 kvs @ []" by simp
    show "\<forall>(key, v) \<in> set kvs. length key < 2 ^ 64" using assms(2) by auto
    show "ConValue_read zd fuel s = Some (Returns (v, s\<lparr>buf := rest\<rparr>))"
      if "(key, v) \<in> set kvs" "good s" "buf s = ConValue_write zc (0 + 1) v @ rest" for key v s rest
    proof (rule ConValue_read_write_nested [where zc = zc and level = 1])
      show "well_formed v" "size v < fuel" using assms(2) that(1) by auto
      show "(1 :: 64 word) \<noteq> 0" by simp
      show "unat (1 :: 64 word) + size v < 2 ^ 64" using assms(2) that(1) by auto
      show "good s" by (rule that(2))
      show "buf s = ConValue_write zc 1 v @ rest" using that(3) by simp
    qed
  qed
  then have 4: "ConObject_read_loop zd fuel (length kvs) [] ?s3 = Some (Returns (assign_all [] kvs, istream_of []))"
    by (simp add: istream_of_buf_update)
  show ?thesis
    using assms(1)
    by (simp add: 1 2 3 4 ConObject_read.simps unat_length tags_distinct [THEN not_sym])
qed


subsection \<open>The text parser\<close>

lemma parse_ConValue_entries:
  assumes "kvs \<noteq> []"
    and "\<forall>(key, v) \<in> set kvs. CHR 0x22 \<notin> set key \<and> text_safe v \<and> keys_sorted v"
    and "length (print_ConValue (Object kvs)) < fuel"
  shows "parse_ConValue fuel (istream_of (print_ConValue (Object kvs)))
     = Some (Returns (Object (assign_all [] kvs), istream_of []))"
proof -
  obtain f where f: "fuel = Suc f" using assms(3) by (cases fuel) auto
  have "parse_ConValue (Suc f) (istream_of (print_ConValue (Object kvs) @ []))
       = Some (Returns (Object (assign_all [] kvs),
                        if kvs = [] then eliminateWhitespace (istream_of []) else istream_of []))"
  proof (rule parse_Object_printed)
    show "\<forall>(key, v) \<in> set kvs. CHR 0x22 \<notin> set key \<and> text_safe v" using assms(2) by auto
    show "length (print_ConValue (Object kvs)) < Suc f" using assms(3) f by simp
    show "parse_ConValue fuel' (istream_of (print_ConValue x @ rest')) = Some (Returns (x, istream_of rest'))"
      if "(k, x) \<in> set kvs" "length (print_ConValue x) < fuel'" "delimited rest'" for k x fuel' rest'
      using that assms(2) by (intro print_parse_nested) auto
  qed
  then show ?thesis
    using assms(1) by (simp add: f del: parse_ConValue.simps print_ConValue.simps)
qed

lemma assign_all_last:
  assumes "kvs = earlier @ [(key, v)] @ later" "key \<notin> set (map fst later)"
  shows "map_of (assign_all [] kvs) key = Some v"
proof -
  have "map_of (rev later) key = None" using assms(2) by (simp add: map_of_eq_None_iff)
  then have "map_of (rev kvs) key = Some v"
    by (simp add: assms(1) map_add_def)
  then show ?thesis using assign_all_map_of [of "[]" kvs] by simp
qed

text \<open>
  C10. Duplicate-key overwrite. Take any list of entries, with keys repeated at will.
  The text object that lists them and the binary Object body that lists them are both
  read as the Object that the assignments \<^verbatim>\<open>obj[key] = value\<close> leave when made in the
  order of the list: under each key it holds the value of the last entry with that key,
  its keys are those of the list, each once, in ascending order. So \<open>{"a": 1, "a": 2}\<close>
  is read as \<open>{"a": 2}\<close>.
\<close>

theorem duplicate_key_overwrite:
  \<open>(kvs \<noteq> [] \<and> (\<forall>(key, v) \<in> set kvs. CHR 0x22 \<notin> set key \<and> text_safe v \<and> keys_sorted v)
      \<and> length (print_ConValue (Object kvs)) < fuel
      \<longrightarrow> parse_ConValue fuel (istream_of (print_ConValue (Object kvs)))
            = Some (Returns (Object (assign_all [] kvs), istream_of [])))
   \<and> (length kvs < 2 ^ 64
      \<and> (\<forall>(key, v) \<in> set kvs. length key < 2 ^ 64 \<and> well_formed v \<and> size v < fuel \<and> Suc (size v) < 2 ^ 64)
      \<longrightarrow> ConValue_read zdecompress (Suc fuel)
              (istream_of (tag_Object # CHR 0x00 # ConObject_write zcompress 0 kvs))
            = Some (Returns (Object (assign_all [] kvs), istream_of [])))
   \<and> (kvs = earlier @ [(key, v)] @ later \<and> key \<notin> set (map fst later)
      \<longrightarrow> map_of (assign_all [] kvs) key = Some v)
   \<and> sorted_wrt (<) (map fst (assign_all [] kvs))
   \<and> distinct (map fst (assign_all [] kvs))
   \<and> set (map fst (assign_all [] kvs)) = set (map fst kvs)
   \<and> parse_ConValue 20 (istream_of ''{"a": 1, "a": 2}'')
       = Some (Returns (Object [(''a'', Integer 2)], istream_of []))\<close>
proof -
  have s: "sorted_wrt (<) (map fst (assign_all [] kvs))"
    using assign_all_sorted_keys [of "[]" kvs] by simp
  then have d: "distinct (map fst (assign_all [] kvs))"
    using strict_sorted_iff [of "map fst (assign_all [] kvs)"] by simp
  have k: "set (map fst (assign_all [] kvs)) = set (map fst kvs)"
    using assign_all_keys [of "[]" kvs] by simp
  have e: \<open>parse_ConValue 20 (istream_of ''{"a": 1, "a": 2}'')
       = Some (Returns (Object [(''a'', Integer 2)], istream_of []))\<close>
    by (simp add: parse_eval)
  show ?thesis
    using parse_ConValue_entries [of kvs fuel] ConValue_read_entries [of kvs fuel zdecompress zcompress]
      assign_all_last [of kvs earlier key v later] s d k e
    by blast
qed

theorem duplicate_key_overwrite_witness:
  \<open>print_ConValue (Object [(''a'', Integer 1), (''a'', Integer 2)]) = ''{"a": 1, "a": 2}''
   \<and> parse_ConValue 20 (istream_of ''{"a": 1, "a": 2}'')
       = Some (Returns (Object [(''a'', Integer 2)], istream_of []))
   \<and> ConValue_read (\<lambda>x. x) 21
        (istream_of (tag_Object # CHR 0x00
           # ConObject_write (\<lambda>x. x) 0 [(''a'', Integer 1), (''a'', Integer 2)]))
       = Some (Returns (Object [(''a'', Integer 2)], istream_of []))
   \<and> map_of [(''a'', Integer 2)] ''a'' = Some (Integer 2)\<close>
  using duplicate_key_overwrite [of \<open>[(''a'', Integer 1), (''a'', Integer 2)]\<close> 20
      \<open>\<lambda>x. x\<close> \<open>\<lambda>x. x\<close> \<open>[(''a'', Integer 1)]\<close> \<open>''a''\<close> \<open>Integer 2\<close> \<open>[]\<close>]
  by (simp add: print_int64_def show_nat.simps digit_char_numerals
      del: parse_ConValue.simps ConValue_read.simps)


section \<open>The order of the keys of an Object\<close>

text \<open>
  C5. Sorted object keys. An Object holds its entries in the order in which the
  \<^verbatim>\<open>std::map\<close> iterates, and the encoder and the printer walk them in that order. Every
  value that the text parser or the binary decoder returns has the keys of each of its
  Objects in strictly ascending order, so they are unique; \<^verbatim>\<open>operator[]\<close> keeps a sorted
  map sorted, and two assignments to different keys give the same map in either order.
  So \<open>{"b": 1, "a": 2}\<close> parses to the Object that prints as \<open>{"a": 2, "b": 1}\<close> and
  that is written with \<open>a\<close> before \<open>b\<close>.
\<close>

theorem sorted_object_keys:
  \<open>(parse_ConValue fuel s = Some (Returns (v, s')) \<longrightarrow> keys_sorted v)
   \<and> (ConValue_read zdecompress fuel' sb = Some (Returns (vb, sb')) \<longrightarrow> keys_sorted vb)
   \<and> (sorted_wrt (<) (map fst m) \<longrightarrow>
         sorted_wrt (<) (map fst (map_assign k x m))
         \<and> distinct (map fst (map_assign k x m))
         \<and> (k \<noteq> k' \<longrightarrow>
               map_assign k x (map_assign k' x' m) = map_assign k' x' (map_assign k x m)))
   \<and> parse_ConValue 20 (istream_of ''{"b": 1, "a": 2}'')
       = Some (Returns (Object [(''a'', Integer 2), (''b'', Integer 1)], istream_of []))
   \<and> print_ConValue (Object [(''a'', Integer 2), (''b'', Integer 1)]) = ''{"a": 2, "b": 1}''
   \<and> ConValue_write zcompress 0 (Object [(''a'', Integer 2), (''b'', Integer 1)])
       = tag_Object # CHR 0x00 # write_u64 2
         @ write_u64 1 @ ''a'' @ tag_Integer # write_u64 2
         @ write_u64 1 @ ''b'' @ tag_Integer # write_u64 1\<close>
proof -
  have 1: "parse_ConValue fuel s = Some (Returns (v, s')) \<longrightarrow> keys_sorted v"
    using parse_keys_sorted_all [of fuel] by blast
  have 2: "ConValue_read zdecompress fuel' sb = Some (Returns (vb, sb')) \<longrightarrow> keys_sorted vb"
    using ConValue_read_keys_sorted by blast
  have 3: "sorted_wrt (<) (map fst m) \<longrightarrow>
         sorted_wrt (<) (map fst (map_assign k x m))
         \<and> distinct (map fst (map_assign k x m))
         \<and> (k \<noteq> k' \<longrightarrow>
               map_assign k x (map_assign k' x' m) = map_assign k' x' (map_assign k x m))"
    using sorted_map_assign [of m k x] map_assign_commute [of m k k' x x']
      strict_sorted_iff [of "map fst (map_assign k x m)"]
    by blast
  have 4: \<open>parse_ConValue 20 (istream_of ''{"b": 1, "a": 2}'')
       = Some (Returns (Object [(''a'', Integer 2), (''b'', Integer 1)], istream_of []))\<close>
    by (simp add: parse_eval istream_of_def)
  have 5: \<open>print_ConValue (Object [(''a'', Integer 2), (''b'', Integer 1)]) = ''{"a": 2, "b": 1}''\<close>
    by (simp add: print_eval)
  have 6: \<open>ConValue_write zcompress 0 (Object [(''a'', Integer 2), (''b'', Integer 1)])
       = tag_Object # CHR 0x00 # write_u64 2
         @ write_u64 1 @ ''a'' @ tag_Integer # write_u64 2
         @ write_u64 1 @ ''b'' @ tag_Integer # write_u64 1\<close>
    by (simp add: ConObject_write.simps frame_container_def COMPRESS_COMPARE_def
        COMPRESSION_THRESHOLD_def write_u64_def write_bool_def)
  show ?thesis using 1 2 3 4 5 6 by blast
qed

theorem sorted_object_keys_witness:
  \<open>parse_ConValue 20 (istream_of ''{"b": 1, "a": 2}'')
       = Some (Returns (Object [(''a'', Integer 2), (''b'', Integer 1)], istream_of []))
   \<and> ConValue_read (\<lambda>x. x) 21
        (istream_of (tag_Object # CHR 0x00
           # ConObject_write (\<lambda>x. x) 0 [(''b'', Integer 1), (''a'', Integer 2)]))
       = Some (Returns (Object [(''a'', Integer 2), (''b'', Integer 1)], istream_of []))
   \<and> keys_sorted (Object [(''a'', Integer 2), (''b'', Integer 1)])
   \<and> sorted_wrt (<) (map fst [(''c'', Integer 3)])
   \<and> map_assign ''a'' (Integer 2) (map_assign ''b'' (Integer 1) [(''c'', Integer 3)])
       = map_assign ''b'' (Integer 1) (map_assign ''a'' (Integer 2) [(''c'', Integer 3)])\<close>
  using sorted_object_keys [of 20 \<open>istream_of ''{"b": 1, "a": 2}''\<close>
      \<open>Object [(''a'', Integer 2), (''b'', Integer 1)]\<close> \<open>istream_of []\<close>
      \<open>\<lambda>x. x\<close> 21
      \<open>istream_of (tag_Object # CHR 0x00
           # ConObject_write (\<lambda>x. x) 0 [(''b'', Integer 1), (''a'', Integer 2)])\<close>
      \<open>Object [(''a'', Integer 2), (''b'', Integer 1)]\<close> \<open>istream_of []\<close>
      \<open>[(''c'', Integer 3)]\<close> \<open>''a''\<close> \<open>Integer 2\<close> \<open>''b''\<close> \<open>Integer 1\<close> \<open>\<lambda>x. x\<close>]
    ConValue_read_entries [of \<open>[(''b'', Integer 1), (''a'', Integer 2)]\<close> 20 \<open>\<lambda>x. x\<close> \<open>\<lambda>x. x\<close>]
  by (simp del: parse_ConValue.simps ConValue_read.simps)

end
